theory Spec2Isabelle
  imports Complex_Main
begin

section \<open>Data model\<close>

text \<open>
  The catalog entries of \<open>app.py\<close>: the dataclass \<open>Item(name, weight, value)\<close>. The route
  builds every item with \<open>int(...)\<close> on weight and value, so both are unbounded integers.
\<close>

record Item =
  item_name :: string
  item_weight :: int
  item_value :: int

text \<open>
  An \<open>Individual\<close> object holds its bit list, the catalog and the weight cap. Objects live
  in a heap (a list of objects, the address is the position), because \<open>mutate\<close> writes
  into \<open>individual.bits[i]\<close> in place and populations hold references, not copies.
\<close>

record Individual =
  bits :: "int list"
  items :: "Item list"
  max_weight :: int

type_synonym ref = nat
type_synonym heap = "Individual list"

datatype py_error = ValueError | AttributeError

text \<open>An exception raised in the middle of a run, with the heap and the tape it leaves behind.\<close>

type_synonym raised = "py_error \<times> Individual list \<times> int list"

text \<open>\<open>Individual(bits, items, max_weight)\<close>: a fresh object at a fresh address.\<close>

definition new_Individual :: "int list \<Rightarrow> Item list \<Rightarrow> int \<Rightarrow> heap \<Rightarrow> ref \<times> heap" where
  "new_Individual bs its mw h = (length h, h @ [\<lparr>bits = bs, items = its, max_weight = mw\<rparr>])"

section \<open>Fitness and the derived views\<close>

text \<open>
  \<open>sum(bit * item.value for item, bit in zip(self.items, self.bits))\<close>: \<open>zip\<close> stops at the
  shorter of the two lists.
\<close>

definition total_value :: "Individual \<Rightarrow> int" where
  "total_value self = sum_list (map (\<lambda>(item, bit). bit * item_value item) (zip (items self) (bits self)))"

definition get_total_weight :: "Individual \<Rightarrow> int" where
  "get_total_weight self = sum_list (map (\<lambda>(item, bit). bit * item_weight item) (zip (items self) (bits self)))"

definition fitness :: "Individual \<Rightarrow> int" where
  "fitness self =
     (let total_value = total_value self;
          total_weight = get_total_weight self
      in if total_weight \<le> max_weight self then total_value
         else - \<bar>total_weight - max_weight self\<bar>)"

definition get_selected_items :: "Individual \<Rightarrow> Item list" where
  "get_selected_items self = map fst (filter (\<lambda>(item, bit). bit = 1) (zip (items self) (bits self)))"

section \<open>Chance\<close>

text \<open>
  The source draws from the process-wide generator of the \<open>random\<close> module and never
  seeds it. The model threads an explicit tape of outcomes through every call: each draw
  consumes the head of the tape and reduces it modulo the size of its range, and an
  exhausted tape yields 0. Every sequence of outcomes the generator can produce is the
  reading of some tape, so a statement proved for all tapes holds for every run.
\<close>

type_synonym rng = "int list"

fun draw :: "rng \<Rightarrow> int \<times> rng" where
  "draw [] = (0, [])"
| "draw (d # ds) = (d, ds)"

text \<open>\<open>random.choice([0, 1])\<close>.\<close>

definition random_choice01 :: "rng \<Rightarrow> int \<times> rng" where
  "random_choice01 g = (case draw g of (d, g') \<Rightarrow> ([0, 1] ! nat (d mod 2), g'))"

text \<open>\<open>random.random()\<close>: a multiple of \<open>2^-53\<close> in \<open>[0, 1)\<close>.\<close>

definition random_random :: "rng \<Rightarrow> rat \<times> rng" where
  "random_random g = (case draw g of (d, g') \<Rightarrow> (of_int (d mod 2 ^ 53) / 2 ^ 53, g'))"

text \<open>\<open>random.randint(a, b)\<close>: an integer of \<open>[a, b]\<close>; ValueError on an empty range.\<close>

definition random_randint :: "int \<Rightarrow> int \<Rightarrow> rng \<Rightarrow> py_error + (int \<times> rng)" where
  "random_randint a b g =
     (if b < a then Inl ValueError
      else case draw g of (d, g') \<Rightarrow> Inr (a + d mod (b - a + 1), g'))"

text \<open>
  \<open>random.sample(xs, k)\<close>: \<open>k\<close> elements at distinct positions, in the order drawn;
  ValueError when \<open>k\<close> exceeds the length.
\<close>

fun pick_distinct :: "'a list \<Rightarrow> nat \<Rightarrow> rng \<Rightarrow> 'a list \<times> rng" where
  "pick_distinct xs 0 g = ([], g)"
| "pick_distinct xs (Suc k) g =
     (case draw g of (d, g1) \<Rightarrow>
        let i = nat (d mod int (length xs)) in
        case pick_distinct (take i xs @ drop (Suc i) xs) k g1 of (ys, g2) \<Rightarrow> (xs ! i # ys, g2))"

definition random_sample :: "'a list \<Rightarrow> nat \<Rightarrow> rng \<Rightarrow> py_error + ('a list \<times> rng)" where
  "random_sample xs k g = (if length xs < k then Inl ValueError else Inr (pick_distinct xs k g))"

text \<open>\<open>[random.choice([0, 1]) for _ in range(n)]\<close>.\<close>

fun random_bits :: "nat \<Rightarrow> rng \<Rightarrow> int list \<times> rng" where
  "random_bits 0 g = ([], g)"
| "random_bits (Suc n) g =
     (case random_choice01 g of (b, g1) \<Rightarrow>
      case random_bits n g1 of (bs, g2) \<Rightarrow> (b # bs, g2))"

section \<open>Builtins\<close>

text \<open>
  \<open>max(xs, key=...)\<close>: the first element whose key is greatest (a later element replaces
  the running maximum only when its key is strictly greater); ValueError on an empty
  list, unless \<open>default=None\<close> is given.
\<close>

fun max_from :: "('a \<Rightarrow> int) \<Rightarrow> 'a \<Rightarrow> 'a list \<Rightarrow> 'a" where
  "max_from key best [] = best"
| "max_from key best (x # xs) = max_from key (if key x > key best then x else best) xs"

definition py_max :: "('a \<Rightarrow> int) \<Rightarrow> 'a list \<Rightarrow> py_error + 'a" where
  "py_max key xs = (case xs of [] \<Rightarrow> Inl ValueError | x # xs' \<Rightarrow> Inr (max_from key x xs'))"

definition py_max_default :: "('a \<Rightarrow> int) \<Rightarrow> 'a list \<Rightarrow> 'a option" where
  "py_max_default key xs = (case xs of [] \<Rightarrow> None | x # xs' \<Rightarrow> Some (max_from key x xs'))"

text \<open>
  A \<open>set\<close> of \<open>Individual\<close> objects. The class defines \<open>__hash__\<close> and no \<open>__eq__\<close>, so
  two members are equal only when they are the same object: \<open>add\<close> leaves the set alone
  exactly when that very reference is already in it. The hash of \<open>str(self.bits)\<close> only
  decides where a member is stored, that is the order in which \<open>list(population)\<close> walks
  them; it varies from process to process and is taken from the tape.
\<close>

definition set_add :: "ref list \<Rightarrow> ref \<Rightarrow> ref list" where
  "set_add population individual =
     (if individual \<in> set population then population else population @ [individual])"

definition list_of_set :: "ref list \<Rightarrow> rng \<Rightarrow> ref list \<times> rng" where
  "list_of_set population g = pick_distinct population (length population) g"

section \<open>Population initializer\<close>

function generate_loop1 ::
  "ref list \<Rightarrow> int \<Rightarrow> int \<Rightarrow> Item list \<Rightarrow> int \<Rightarrow> heap \<Rightarrow> rng \<Rightarrow> ref list \<times> heap \<times> rng" where
  "generate_loop1 population max_attempts count its mw h g =
     (if int (length population) < count \<and> max_attempts > 0 then
        case random_bits (length its) g of (bs, g1) \<Rightarrow>
        case new_Individual bs its mw h of (individual, h1) \<Rightarrow>
          generate_loop1 (set_add population individual) (max_attempts - 1) count its mw h1 g1
      else (population, h, g))"
  by pat_completeness auto
termination
  by (relation "measure (\<lambda>(population, max_attempts, count, its, mw, h, g). nat max_attempts)") auto

declare generate_loop1.simps [simp del]

text \<open>
  The filling loop has no attempt budget: it ends only because every \<open>add\<close> of a fresh
  object makes the set grow.
\<close>

partial_function (option) generate_loop2 ::
  "ref list \<Rightarrow> int \<Rightarrow> Item list \<Rightarrow> int \<Rightarrow> heap \<Rightarrow> rng \<Rightarrow> (ref list \<times> heap \<times> rng) option" where
  "generate_loop2 population count its mw h g =
     (if int (length population) < count then
        case random_bits (length its) g of (bs, g1) \<Rightarrow>
        case new_Individual bs its mw h of (individual, h1) \<Rightarrow>
          generate_loop2 (set_add population individual) count its mw h1 g1
      else Some (population, h, g))"

declare generate_loop2.simps [code]

definition generate_initial_population ::
  "int \<Rightarrow> Item list \<Rightarrow> int \<Rightarrow> heap \<Rightarrow> rng \<Rightarrow> (ref list \<times> heap \<times> rng) option" where
  "generate_initial_population count its mw h g =
     (let max_attempts = count * 10 in
      case generate_loop1 [] max_attempts count its mw h g of (population, h1, g1) \<Rightarrow>
      case generate_loop2 population count its mw h1 g1 of
        None \<Rightarrow> None
      | Some (population', h2, g2) \<Rightarrow>
          (case list_of_set population' g2 of (xs, g3) \<Rightarrow> Some (xs, h2, g3)))"

section \<open>Selection, crossover, mutation\<close>

definition tournament :: "ref list \<Rightarrow> heap \<Rightarrow> rng \<Rightarrow> py_error + (ref \<times> rng)" where
  "tournament population h g =
     (case random_sample population 4 g of
        Inl e \<Rightarrow> Inl e
      | Inr (tournament, g1) \<Rightarrow>
          (case py_max (\<lambda>x. fitness (h ! x)) tournament of
             Inl e \<Rightarrow> Inl e
           | Inr winner \<Rightarrow> Inr (winner, g1)))"

definition selection :: "ref list \<Rightarrow> heap \<Rightarrow> rng \<Rightarrow> py_error + (ref list \<times> rng)" where
  "selection population h g =
     (if length population < 4 then random_sample population (min 2 (length population)) g
      else case tournament population h g of
             Inl e \<Rightarrow> Inl e
           | Inr (winner1, g1) \<Rightarrow>
               (case tournament population h g1 of
                  Inl e \<Rightarrow> Inl e
                | Inr (winner2, g2) \<Rightarrow> Inr ([winner1, winner2], g2)))"

text \<open>
  \<open>len(parents) < 2 or random.random() > crossover_rate\<close> short-circuits: with fewer than
  two parents nothing is drawn. When no recombination happens the function returns
  \<open>parents\<close> itself: the very objects of the population.
\<close>

definition crossover ::
  "ref list \<Rightarrow> Item list \<Rightarrow> int \<Rightarrow> rat \<Rightarrow> heap \<Rightarrow> rng \<Rightarrow> raised + (ref list \<times> heap \<times> rng)" where
  "crossover parents its mw crossover_rate h g =
     (if length parents < 2 then Inr (parents, h, g)
      else case random_random g of (u, g1) \<Rightarrow>
        if u > crossover_rate then Inr (parents, h, g1)
        else case random_randint 1 (int (length its) - 1) g1 of
          Inl e \<Rightarrow> Inl (e, h, g1)
        | Inr (crossover_point, g2) \<Rightarrow>
            let p = nat crossover_point;
                child1_bits = take p (bits (h ! (parents ! 0))) @ drop p (bits (h ! (parents ! 1)));
                child2_bits = take p (bits (h ! (parents ! 1))) @ drop p (bits (h ! (parents ! 0)))
            in case new_Individual child1_bits its mw h of (child1, h1) \<Rightarrow>
               case new_Individual child2_bits its mw h1 of (child2, h2) \<Rightarrow>
                 Inr ([child1, child2], h2, g2))"

text \<open>\<open>individual.bits[i] = 1 - individual.bits[i]\<close>, written into the object itself.\<close>

definition flip_in_place :: "ref \<Rightarrow> nat \<Rightarrow> heap \<Rightarrow> heap" where
  "flip_in_place individual i h =
     h[individual := (h ! individual)\<lparr>bits := (bits (h ! individual))[i := 1 - bits (h ! individual) ! i]\<rparr>]"

fun mutate_individual :: "ref \<Rightarrow> nat list \<Rightarrow> rat \<Rightarrow> heap \<Rightarrow> rng \<Rightarrow> heap \<times> rng" where
  "mutate_individual individual [] mutation_rate h g = (h, g)"
| "mutate_individual individual (i # is) mutation_rate h g =
     (case random_random g of (u, g1) \<Rightarrow>
        mutate_individual individual is mutation_rate
          (if u < mutation_rate then flip_in_place individual i h else h) g1)"

fun mutate :: "ref list \<Rightarrow> rat \<Rightarrow> heap \<Rightarrow> rng \<Rightarrow> heap \<times> rng" where
  "mutate [] mutation_rate h g = (h, g)"
| "mutate (individual # individuals) mutation_rate h g =
     (case mutate_individual individual [0..<length (bits (h ! individual))] mutation_rate h g of
        (h1, g1) \<Rightarrow> mutate individuals mutation_rate h1 g1)"

section \<open>Generational loop\<close>

function next_generation_loop ::
  "ref list \<Rightarrow> ref list \<Rightarrow> Item list \<Rightarrow> int \<Rightarrow> rat \<Rightarrow> rat \<Rightarrow> heap \<Rightarrow> rng
     \<Rightarrow> raised + (ref list \<times> heap \<times> rng)" where
  "next_generation_loop next_gen population its mw crossover_rate mutation_rate h g =
     (if length next_gen < length population then
        case selection population h g of
          Inl e \<Rightarrow> Inl (e, h, g)
        | Inr (parents, g1) \<Rightarrow>
            (case crossover parents its mw crossover_rate h g1 of
               Inl e \<Rightarrow> Inl e
             | Inr (children, h1, g2) \<Rightarrow>
                 (case mutate children mutation_rate h1 g2 of (h2, g3) \<Rightarrow>
                    next_generation_loop (next_gen @ children) population its mw
                      crossover_rate mutation_rate h2 g3))
      else Inr (next_gen, h, g))"
  by pat_completeness auto

lemma length_pick_distinct: "length (fst (pick_distinct xs k g)) = k"
proof (induction k arbitrary: xs g)
  case 0
  show ?case by simp
next
  case (Suc k)
  obtain d g1 where d: "draw g = (d, g1)" by (cases "draw g")
  let ?rest = "take (nat (d mod int (length xs))) xs @ drop (Suc (nat (d mod int (length xs)))) xs"
  obtain ys g2 where r: "pick_distinct ?rest k g1 = (ys, g2)" by (cases "pick_distinct ?rest k g1")
  from Suc [of ?rest g1] r have "length ys = k" by simp
  with d r show ?case by (simp add: Let_def)
qed

lemma selection_length:
  assumes "selection population h g = Inr (parents, g')"
  shows "length parents = min 2 (length population)"
proof (cases "length population < 4")
  case True
  with assms have "parents = fst (pick_distinct population (min 2 (length population)) g)"
    by (auto simp: selection_def random_sample_def split: if_splits)
  then show ?thesis by (simp only: length_pick_distinct)
next
  case False
  with assms show ?thesis
    by (auto simp: selection_def split: sum.splits)
qed

lemma crossover_length:
  assumes "crossover parents its mw cr h g = Inr (children, h', g')"
  shows "length children = length parents \<or> length children = 2"
  using assms
  by (auto simp: crossover_def Let_def new_Individual_def split: if_splits prod.splits sum.splits)

termination next_generation_loop
proof (relation "measure (\<lambda>(next_gen, population, its, mw, cr, mr, h, g). length population - length next_gen)")
  show "wf (measure (\<lambda>(next_gen, population, its, mw, cr, mr, h, g). length population - length next_gen))"
    by simp
next
  fix next_gen population :: "ref list" and its :: "Item list" and mw :: int and cr mr :: rat
    and h h1 h2 :: heap and g g1 g2 g3 :: rng and parents children :: "ref list"
    and x2 x2a y xd
  assume lt: "length next_gen < length population"
    and sel: "selection population h g = Inr x2" "(parents, g1) = x2"
    and cro: "crossover parents its mw cr h g1 = Inr x2a" "(children, y) = x2a"
  from sel have "selection population h g = Inr (parents, g1)" by simp
  then have "length parents = min 2 (length population)" by (rule selection_length)
  with lt have "0 < length parents" by (cases population) (auto simp: min_def)
  moreover from cro obtain h1' g2' where "crossover parents its mw cr h g1 = Inr (children, h1', g2')"
    by (cases y) auto
  then have "length children = length parents \<or> length children = 2" by (rule crossover_length)
  ultimately have "children \<noteq> []" by auto
  with lt show "((next_gen @ children, population, its, mw, cr, mr, h2, g3),
                 (next_gen, population, its, mw, cr, mr, h, g))
       \<in> measure (\<lambda>(next_gen, population, its, mw, cr, mr, h, g). length population - length next_gen)"
    by (cases children) auto
qed

declare next_generation_loop.simps [simp del]

text \<open>
  \<open>sorted(population, key=lambda x: x.fitness(), reverse=True)\<close> is stable: candidates
  of equal fitness keep their order. The slice \<open>[:elite_count]\<close> holds references to the
  population's own objects.
\<close>

definition next_generation ::
  "ref list \<Rightarrow> Item list \<Rightarrow> int \<Rightarrow> rat \<Rightarrow> rat \<Rightarrow> heap \<Rightarrow> rng \<Rightarrow> raised + (ref list \<times> heap \<times> rng)" where
  "next_generation population its mw crossover_rate mutation_rate h g =
     (let elite_count = max 1 (length population div 10);
          next_gen = take elite_count (sort_key (\<lambda>x. - fitness (h ! x)) population)
      in case next_generation_loop next_gen population its mw crossover_rate mutation_rate h g of
           Inl e \<Rightarrow> Inl e
         | Inr (next_gen', h', g') \<Rightarrow> Inr (take (length population) next_gen', h', g'))"

section \<open>The solve endpoint\<close>

text \<open>
  The JSON body: every recognised key may be absent. A body without any key is the empty
  mapping, which \<open>if not data\<close> rejects like a missing body.
\<close>

record request =
  req_items :: "Item list option"
  req_max_weight :: "int option"
  req_population_size :: "int option"
  req_generations :: "int option"
  req_crossover_rate :: "rat option"
  req_mutation_rate :: "rat option"

datatype failure = Invalid_input_format | No_items_provided | An_error_occurred py_error

datatype response =
    Error failure
  | Result (selected_items: "Item list") (total_value_field: int) (total_weight_field: int)

definition get :: "'a option \<Rightarrow> 'a \<Rightarrow> 'a" where
  "get field dflt = (case field of None \<Rightarrow> dflt | Some v \<Rightarrow> v)"

definition no_data :: "request \<Rightarrow> bool" where
  "no_data data \<longleftrightarrow>
     req_items data = None \<and> req_max_weight data = None \<and> req_population_size data = None
     \<and> req_generations data = None \<and> req_crossover_rate data = None \<and> req_mutation_rate data = None"

text \<open>The body of the \<open>for _ in range(generations)\<close> loop.\<close>

definition generation_step ::
  "ref list \<Rightarrow> ref option \<Rightarrow> Item list \<Rightarrow> int \<Rightarrow> rat \<Rightarrow> rat \<Rightarrow> heap \<Rightarrow> rng
     \<Rightarrow> raised + (ref list \<times> ref option \<times> heap \<times> rng)" where
  "generation_step population best_solution its mw crossover_rate mutation_rate h g =
     (case next_generation population its mw crossover_rate mutation_rate h g of
        Inl e \<Rightarrow> Inl e
      | Inr (population', h', g') \<Rightarrow>
          (case py_max (\<lambda>x. fitness (h' ! x)) population' of
             Inl e \<Rightarrow> Inl (e, h', g')
           | Inr current_best \<Rightarrow>
               (case best_solution of
                  None \<Rightarrow> Inl (AttributeError, h', g')
                | Some best \<Rightarrow>
                    if fitness (h' ! current_best) > fitness (h' ! best)
                    then Inr (population', Some current_best, h', g')
                    else Inr (population', Some best, h', g'))))"

fun evolve ::
  "nat \<Rightarrow> ref list \<Rightarrow> ref option \<Rightarrow> Item list \<Rightarrow> int \<Rightarrow> rat \<Rightarrow> rat \<Rightarrow> heap \<Rightarrow> rng
     \<Rightarrow> raised + (ref list \<times> ref option \<times> heap \<times> rng)" where
  "evolve 0 population best_solution its mw crossover_rate mutation_rate h g =
     Inr (population, best_solution, h, g)"
| "evolve (Suc n) population best_solution its mw crossover_rate mutation_rate h g =
     (case generation_step population best_solution its mw crossover_rate mutation_rate h g of
        Inl e \<Rightarrow> Inl e
      | Inr (population', best_solution', h', g') \<Rightarrow>
          evolve n population' best_solution' its mw crossover_rate mutation_rate h' g')"

text \<open>The result projection at the end of the route.\<close>

definition project_result :: "ref option \<Rightarrow> int \<Rightarrow> heap \<Rightarrow> response" where
  "project_result best_solution mw h =
     (case best_solution of
        Some best \<Rightarrow>
          if get_total_weight (h ! best) \<le> mw
          then Result (get_selected_items (h ! best)) (fitness (h ! best)) (get_total_weight (h ! best))
          else Result [] 0 0
      | None \<Rightarrow> Result [] 0 0)"

text \<open>
  The search itself: the initial population, its best candidate, and the generations.
  \<open>range(generations)\<close> is empty for a negative count.
\<close>

definition evolution ::
  "int \<Rightarrow> Item list \<Rightarrow> int \<Rightarrow> int \<Rightarrow> rat \<Rightarrow> rat \<Rightarrow> heap \<Rightarrow> rng
     \<Rightarrow> (raised + (ref list \<times> ref option \<times> heap \<times> rng)) option" where
  "evolution population_size its mw generations crossover_rate mutation_rate h g =
     (case generate_initial_population population_size its mw h g of
        None \<Rightarrow> None
      | Some (population, h1, g1) \<Rightarrow>
          let best_solution = py_max_default (\<lambda>x. fitness (h1 ! x)) population
          in Some (evolve (nat generations) population best_solution its mw
                     crossover_rate mutation_rate h1 g1))"

text \<open>
  The route, from the parsed body to the response and its status code. The heap and the
  tape a call leaves behind are returned with them, so that what the call allocated and
  drew can be stated. A call starts on an empty heap. \<open>None\<close> stands for a call that does
  not return.
\<close>

definition solve_knapsack :: "request \<Rightarrow> rng \<Rightarrow> (response \<times> nat \<times> heap \<times> rng) option" where
  "solve_knapsack data g =
     (if no_data data then Some (Error Invalid_input_format, 400, [], g)
      else
        let mw = get (req_max_weight data) 15;
            population_size = get (req_population_size data) 6;
            generations = get (req_generations data) 100;
            crossover_rate = get (req_crossover_rate data) (53 / 100);
            mutation_rate = get (req_mutation_rate data) (13 / 1000);
            items_data = get (req_items data) []
        in if items_data = [] then Some (Error No_items_provided, 400, [], g)
           else
             case evolution population_size items_data mw generations
                    crossover_rate mutation_rate [] g of
               None \<Rightarrow> None
             | Some (Inl (e, h2, g2)) \<Rightarrow> Some (Error (An_error_occurred e), 500, h2, g2)
             | Some (Inr (population, best_solution, h2, g2)) \<Rightarrow>
                 Some (project_result best_solution mw h2, 200, h2, g2))"

section \<open>Well-formed heaps\<close>

text \<open>
  What every object of a run satisfies: it carries the catalog and the cap of the run, and a
  bit list of the catalog's length over \<open>{0, 1}\<close>. Populations and the best-so-far
  reference point into the heap.
\<close>

definition bit_list :: "int list \<Rightarrow> bool" where
  "bit_list bs \<longleftrightarrow> list_all (\<lambda>b. b = 0 \<or> b = 1) bs"

definition well_formed :: "Item list \<Rightarrow> int \<Rightarrow> Individual \<Rightarrow> bool" where
  "well_formed its mw c \<longleftrightarrow>
     items c = its \<and> max_weight c = mw \<and> length (bits c) = length its \<and> bit_list (bits c)"

definition heap_ok :: "Item list \<Rightarrow> int \<Rightarrow> heap \<Rightarrow> bool" where
  "heap_ok its mw h \<longleftrightarrow> list_all (well_formed its mw) h"

definition refs_in :: "heap \<Rightarrow> ref list \<Rightarrow> bool" where
  "refs_in h rs \<longleftrightarrow> list_all (\<lambda>r. r < length h) rs"

definition best_in :: "heap \<Rightarrow> ref option \<Rightarrow> bool" where
  "best_in h best \<longleftrightarrow> (case best of None \<Rightarrow> True | Some b \<Rightarrow> b < length h)"

definition candidates_ok :: "Item list \<Rightarrow> heap \<Rightarrow> ref list \<Rightarrow> bool" where
  "candidates_ok its h population \<longleftrightarrow>
     list_all (\<lambda>r. r < length h \<and> length (bits (h ! r)) = length its \<and> bit_list (bits (h ! r))) population"

section \<open>Outcomes read from the tape\<close>

text \<open>
  The \<open>i\<close>-th outcome a call meets on a tape (0 once the tape is exhausted), and two tapes
  that present the same first \<open>n\<close> outcomes.
\<close>

definition outcome :: "rng \<Rightarrow> nat \<Rightarrow> int" where
  "outcome g i = (if i < length g then g ! i else 0)"

definition same_draws :: "nat \<Rightarrow> rng \<Rightarrow> rng \<Rightarrow> bool" where
  "same_draws n g1 g2 \<longleftrightarrow> map (outcome g1) [0..<n] = map (outcome g2) [0..<n]"

text \<open>
  \<open>reads f g n c\<close>: started on any tape that presents the same first \<open>n\<close> outcomes as \<open>g\<close>,
  the computation \<open>f\<close> consumes exactly these and goes on as \<open>c\<close> on the rest of the tape.
\<close>

definition reads :: "(rng \<Rightarrow> 'r) \<Rightarrow> rng \<Rightarrow> nat \<Rightarrow> (rng \<Rightarrow> 'r) \<Rightarrow> bool" where
  "reads f g n c \<longleftrightarrow> (\<forall>g2. same_draws n g g2 \<longrightarrow> f g2 = c (drop n g2))"

text \<open>The result of a step, with the tape it leaves behind replaced.\<close>

definition with_tape :: "raised + ('a \<times> heap \<times> rng) \<Rightarrow> rng \<Rightarrow> raised + ('a \<times> heap \<times> rng)" where
  "with_tape r t = (case r of Inl (e, h, g) \<Rightarrow> Inl (e, h, t) | Inr (x, h, g) \<Rightarrow> Inr (x, h, t))"

definition with_tape4 ::
  "raised + ('a \<times> 'b \<times> heap \<times> rng) \<Rightarrow> rng \<Rightarrow> raised + ('a \<times> 'b \<times> heap \<times> rng)" where
  "with_tape4 r t = (case r of Inl (e, h, g) \<Rightarrow> Inl (e, h, t) | Inr (x, y, h, g) \<Rightarrow> Inr (x, y, h, t))"

section \<open>Example catalog\<close>

text \<open>The first three items of the scenario the documentation of the solver uses.\<close>

definition item_A :: Item where
  "item_A = \<lparr>item_name = ''A'', item_weight = 2, item_value = 3\<rparr>"

definition item_B :: Item where
  "item_B = \<lparr>item_name = ''B'', item_weight = 3, item_value = 4\<rparr>"

definition item_C :: Item where
  "item_C = \<lparr>item_name = ''C'', item_weight = 4, item_value = 5\<rparr>"

text \<open>The fitness of the best-so-far candidate, read in the heap a search ends with.\<close>

definition best_so_far_fitness ::
  "(raised + (ref list \<times> ref option \<times> heap \<times> rng)) option \<Rightarrow> int option" where
  "best_so_far_fitness r =
     (case r of
        Some (Inr (population, Some best, h, g)) \<Rightarrow> Some (fitness (h ! best))
      | _ \<Rightarrow> None)"

section \<open>Fitness evaluator\<close>

lemma zip_sum_as_index_sum:
  assumes "length bs = length its"
  shows "sum_list (map (\<lambda>(item, bit). bit * f item) (zip its bs)) = (\<Sum>i<length its. bs ! i * f (its ! i))"
proof -
  have "sum_list (map (\<lambda>(item, bit). bit * f item) (zip its bs))
        = (\<Sum>i<length (zip its bs). (\<lambda>(item, bit). bit * f item) (zip its bs ! i))"
    by (simp add: sum_list_sum_nth atLeast0LessThan)
  also have "\<dots> = (\<Sum>i<length its. bs ! i * f (its ! i))"
    using assms by (intro sum.cong) auto
  finally show ?thesis .
qed

lemma total_value_nonneg:
  assumes "set (bits c) \<subseteq> {0, 1}" and "\<forall>it \<in> set (items c). 0 \<le> item_value it"
  shows "0 \<le> total_value c"
proof -
  have "0 \<le> bit * item_value item" if "(item, bit) \<in> set (zip (items c) (bits c))" for item bit
  proof -
    from that have "item \<in> set (items c)" "bit \<in> set (bits c)"
      by (auto dest: set_zip_leftD set_zip_rightD)
    with assms show ?thesis by auto
  qed
  then show ?thesis
    unfolding total_value_def by (intro sum_list_nonneg) auto
qed

text \<open>
  C2. For a candidate whose bit vector ranges over \<open>{0,1}\<close> and has the catalog's length,
  over a catalog with non-negative values: the fitness is the summed value
  \<open>\<Sum> b[i] * value[i]\<close> when the summed weight \<open>\<Sum> b[i] * weight[i]\<close> is within the cap
  and \<open>-(weight - cap)\<close> otherwise; hence fitness is at most the summed value, with
  equality exactly for feasible candidates, and every infeasible candidate scores below 0.
\<close>

theorem fitness_spec:
  assumes len: "length (bits c) = length (items c)"
    and bin: "set (bits c) \<subseteq> {0, 1}"
    and val: "\<forall>it \<in> set (items c). 0 \<le> item_value it"
  shows "(let V = (\<Sum>i<length (items c). bits c ! i * item_value (items c ! i));
              W = (\<Sum>i<length (items c). bits c ! i * item_weight (items c ! i))
          in fitness c = (if W \<le> max_weight c then V else - (W - max_weight c))
             \<and> fitness c \<le> V
             \<and> (fitness c = V \<longleftrightarrow> W \<le> max_weight c)
             \<and> (\<not> W \<le> max_weight c \<longrightarrow> fitness c < 0))"
proof -
  define V where "V = (\<Sum>i<length (items c). bits c ! i * item_value (items c ! i))"
  define W where "W = (\<Sum>i<length (items c). bits c ! i * item_weight (items c ! i))"
  have V: "total_value c = V"
    unfolding total_value_def V_def using len by (rule zip_sum_as_index_sum)
  have W: "get_total_weight c = W"
    unfolding get_total_weight_def W_def using len by (rule zip_sum_as_index_sum)
  have V0: "0 \<le> V"
    using total_value_nonneg [OF bin val] V by simp
  have fit: "fitness c = (if W \<le> max_weight c then V else - (W - max_weight c))"
    by (simp add: fitness_def Let_def V W)
  have "fitness c \<le> V" "fitness c = V \<longleftrightarrow> W \<le> max_weight c"
    "\<not> W \<le> max_weight c \<longrightarrow> fitness c < 0"
    using fit V0 by auto
  with fit show ?thesis
    unfolding Let_def V_def [symmetric] W_def [symmetric] by blast
qed

theorem fitness_spec_witness:
  "fitness \<lparr>bits = [1, 0, 1], items = [\<lparr>item_name = ''A'', item_weight = 2, item_value = 3\<rparr>,
       \<lparr>item_name = ''B'', item_weight = 3, item_value = 4\<rparr>,
       \<lparr>item_name = ''C'', item_weight = 4, item_value = 5\<rparr>], max_weight = 5\<rparr> = - 1
   \<and> fitness \<lparr>bits = [1, 1, 0], items = [\<lparr>item_name = ''A'', item_weight = 2, item_value = 3\<rparr>,
       \<lparr>item_name = ''B'', item_weight = 3, item_value = 4\<rparr>,
       \<lparr>item_name = ''C'', item_weight = 4, item_value = 5\<rparr>], max_weight = 5\<rparr> = 7"
  using fitness_spec [of "\<lparr>bits = [1, 0, 1], items = [\<lparr>item_name = ''A'', item_weight = 2, item_value = 3\<rparr>,
       \<lparr>item_name = ''B'', item_weight = 3, item_value = 4\<rparr>,
       \<lparr>item_name = ''C'', item_weight = 4, item_value = 5\<rparr>], max_weight = 5\<rparr>"]
    fitness_spec [of "\<lparr>bits = [1, 1, 0], items = [\<lparr>item_name = ''A'', item_weight = 2, item_value = 3\<rparr>,
       \<lparr>item_name = ''B'', item_weight = 3, item_value = 4\<rparr>,
       \<lparr>item_name = ''C'', item_weight = 4, item_value = 5\<rparr>], max_weight = 5\<rparr>"]
  by (simp add: Let_def lessThan_Suc numeral_3_eq_3)

section \<open>Invariants of a run\<close>

lemma random_choice01_bit: "random_choice01 g = (b, g') \<Longrightarrow> b = 0 \<or> b = 1"
proof -
  assume a: "random_choice01 g = (b, g')"
  obtain d g1 where d: "draw g = (d, g1)" by (cases "draw g")
  have "d mod 2 = 0 \<or> d mod 2 = 1" by presburger
  with a d show ?thesis by (auto simp: random_choice01_def)
qed

lemma random_bits_ok: "random_bits n g = (bs, g') \<Longrightarrow> length bs = n \<and> bit_list bs"
proof (induction n arbitrary: g bs g')
  case 0
  then show ?case by (simp add: bit_list_def)
next
  case (Suc n)
  obtain b g1 where b: "random_choice01 g = (b, g1)" by (cases "random_choice01 g")
  obtain bs1 g2 where r: "random_bits n g1 = (bs1, g2)" by (cases "random_bits n g1")
  from Suc.prems b r have bs: "bs = b # bs1" by simp
  from Suc.IH [OF r] random_choice01_bit [OF b] bs show ?case
    by (simp add: bit_list_def)
qed

lemma heap_ok_append: "heap_ok its mw h \<Longrightarrow> well_formed its mw c \<Longrightarrow> heap_ok its mw (h @ [c])"
  by (simp add: heap_ok_def)

lemma refs_in_mono: "refs_in h rs \<Longrightarrow> length h \<le> length h' \<Longrightarrow> refs_in h' rs"
  by (auto simp: refs_in_def list_all_iff)

lemma refs_in_fresh: "refs_in h rs \<Longrightarrow> length h \<notin> set rs"
  by (auto simp: refs_in_def list_all_iff)

lemma set_add_fresh:
  assumes "refs_in h population"
  shows "set_add population (length h) = population @ [length h]"
  using refs_in_fresh [OF assms] by (simp add: set_add_def)

lemma generate_loop1_ok:
  assumes "generate_loop1 population max_attempts count its mw h g = (population', h', g')"
    and "heap_ok its mw h" and "refs_in h population" and "0 \<le> max_attempts"
  shows "heap_ok its mw h' \<and> refs_in h' population'
         \<and> int (length population') = max (int (length population)) (min count (int (length population) + max_attempts))"
  using assms
proof (induction population max_attempts count its mw h g rule: generate_loop1.induct)
  case (1 population max_attempts count its mw h g)
  show ?case
  proof (cases "int (length population) < count \<and> max_attempts > 0")
    case False
    with "1.prems" show ?thesis by (auto simp: generate_loop1.simps [of population])
  next
    case True
    obtain bs g1 where bs: "random_bits (length its) g = (bs, g1)" by (cases "random_bits (length its) g")
    define h1 where "h1 = h @ [\<lparr>bits = bs, items = its, max_weight = mw\<rparr>]"
    have new: "new_Individual bs its mw h = (length h, h1)" by (simp add: new_Individual_def h1_def)
    from random_bits_ok [OF bs] have wf: "well_formed its mw \<lparr>bits = bs, items = its, max_weight = mw\<rparr>"
      by (simp add: well_formed_def)
    have h1: "heap_ok its mw h1" unfolding h1_def using "1.prems"(2) wf by (rule heap_ok_append)
    have add: "set_add population (length h) = population @ [length h]"
      using "1.prems"(3) by (rule set_add_fresh)
    have r1: "refs_in h1 (set_add population (length h))"
      using "1.prems"(3) by (auto simp: add refs_in_def h1_def list_all_iff)
    from "1.prems"(1) True bs new
    have rec: "generate_loop1 (set_add population (length h)) (max_attempts - 1) count its mw h1 g1 = (population', h', g')"
      by (simp add: generate_loop1.simps [of population])
    have "0 \<le> max_attempts - 1" using True by simp
    from "1.IH" [OF True bs [symmetric] new [symmetric] rec h1 r1 this]
    show ?thesis using True by (auto simp: add)
  qed
qed

lemma generate_loop2_ok:
  assumes "heap_ok its mw h" and "refs_in h population"
  shows "\<exists>population' h' g'. generate_loop2 population count its mw h g = Some (population', h', g')
           \<and> heap_ok its mw h' \<and> refs_in h' population'
           \<and> int (length population') = max (int (length population)) count"
  using assms
proof (induction n \<equiv> "nat (count - int (length population))" arbitrary: population h g)
  case 0
  then have "\<not> int (length population) < count" by simp
  with 0 show ?case by (subst generate_loop2.simps) simp
next
  case (Suc n)
  then have lt: "int (length population) < count" by simp
  obtain bs g1 where bs: "random_bits (length its) g = (bs, g1)" by (cases "random_bits (length its) g")
  define h1 where "h1 = h @ [\<lparr>bits = bs, items = its, max_weight = mw\<rparr>]"
  have new: "new_Individual bs its mw h = (length h, h1)" by (simp add: new_Individual_def h1_def)
  from random_bits_ok [OF bs] have wf: "well_formed its mw \<lparr>bits = bs, items = its, max_weight = mw\<rparr>"
    by (simp add: well_formed_def)
  have h1: "heap_ok its mw h1" unfolding h1_def using Suc.prems(1) wf by (rule heap_ok_append)
  have add: "set_add population (length h) = population @ [length h]"
    using Suc.prems(2) by (rule set_add_fresh)
  have r1: "refs_in h1 (population @ [length h])"
    using Suc.prems(2) by (auto simp: refs_in_def h1_def list_all_iff)
  have n: "n = nat (count - int (length (population @ [length h])))"
    using Suc.hyps(2) by simp
  from Suc.hyps(1) [OF n h1 r1, of g1]
  obtain population' h' g' where
    rec: "generate_loop2 (population @ [length h]) count its mw h1 g1 = Some (population', h', g')"
    and ok: "heap_ok its mw h'" "refs_in h' population'"
      "int (length population') = max (int (length (population @ [length h]))) count"
    by blast
  have "generate_loop2 population count its mw h g = Some (population', h', g')"
    by (subst generate_loop2.simps) (simp add: lt bs new add rec)
  moreover from ok(3) lt have "int (length population') = max (int (length population)) count"
    by simp
  ultimately show ?case using ok(1,2) by blast
qed

lemma set_pick_distinct:
  "k \<le> length xs \<Longrightarrow> set (fst (pick_distinct xs k g)) \<subseteq> set xs"
proof (induction k arbitrary: xs g)
  case 0
  show ?case by simp
next
  case (Suc k)
  obtain d g1 where d: "draw g = (d, g1)" by (cases "draw g")
  define i where "i = nat (d mod int (length xs))"
  let ?rest = "take i xs @ drop (Suc i) xs"
  obtain ys g2 where r: "pick_distinct ?rest k g1 = (ys, g2)" by (cases "pick_distinct ?rest k g1")
  from Suc.prems have pos: "0 < length xs" by (cases xs) auto
  then have i: "i < length xs" unfolding i_def
    by (simp add: nat_less_iff)
  have "k \<le> length ?rest" using Suc.prems i by simp
  from Suc.IH [OF this, of g1] r have "set ys \<subseteq> set ?rest" by simp
  moreover have "set ?rest \<subseteq> set xs"
    by (auto dest: in_set_takeD in_set_dropD)
  ultimately have "set ys \<subseteq> set xs" by (rule subset_trans)
  moreover have "xs ! i \<in> set xs" using i by simp
  ultimately show ?case using d r by (simp add: Let_def i_def [symmetric])
qed

lemma generate_initial_population_ok:
  assumes "heap_ok its mw h"
  shows "\<exists>population h' g'. generate_initial_population count its mw h g = Some (population, h', g')
           \<and> heap_ok its mw h' \<and> refs_in h' population \<and> int (length population) = max 0 count"
proof -
  obtain p1 h1 g1 where l1: "generate_loop1 [] (count * 10) count its mw h g = (p1, h1, g1)"
    by (cases "generate_loop1 [] (count * 10) count its mw h g")
  have ok1: "heap_ok its mw h1 \<and> refs_in h1 p1"
  proof (cases "0 \<le> count * 10")
    case True
    from generate_loop1_ok [OF l1 assms _ True] show ?thesis by (simp add: refs_in_def)
  next
    case False
    then have "generate_loop1 [] (count * 10) count its mw h g = ([], h, g)"
      by (simp add: generate_loop1.simps [of "[]"])
    with l1 assms show ?thesis by (simp add: refs_in_def)
  qed
  from generate_loop2_ok [of its mw h1 p1 count g1] ok1
  obtain p2 h2 g2 where l2: "generate_loop2 p1 count its mw h1 g1 = Some (p2, h2, g2)"
    and ok2: "heap_ok its mw h2" "refs_in h2 p2" "int (length p2) = max (int (length p1)) count"
    by blast
  have len1: "int (length p1) \<le> max 0 count"
  proof (cases "0 \<le> count * 10")
    case True
    from generate_loop1_ok [OF l1 assms _ True] show ?thesis by (simp add: refs_in_def)
  next
    case False
    then have "generate_loop1 [] (count * 10) count its mw h g = ([], h, g)"
      by (simp add: generate_loop1.simps [of "[]"])
    with l1 show ?thesis by simp
  qed
  obtain xs g3 where ls: "list_of_set p2 g2 = (xs, g3)" by (cases "list_of_set p2 g2")
  then have xs: "xs = fst (pick_distinct p2 (length p2) g2)" by (simp add: list_of_set_def)
  have "length xs = length p2" unfolding xs by (rule length_pick_distinct)
  moreover have "set xs \<subseteq> set p2" unfolding xs by (rule set_pick_distinct) simp
  then have "refs_in h2 xs" using ok2(2) by (auto simp: refs_in_def list_all_iff)
  moreover have "generate_initial_population count its mw h g = Some (xs, h2, g3)"
    by (simp add: generate_initial_population_def l1 l2 ls)
  ultimately show ?thesis using ok2 len1 by auto
qed

lemma max_from_in: "max_from key best xs \<in> insert best (set xs)"
  by (induction xs arbitrary: best) (auto split: if_splits)

lemma py_max_in: "py_max key xs = Inr w \<Longrightarrow> w \<in> set xs"
  using max_from_in [of key "hd xs" "tl xs"]
  by (cases xs) (auto simp: py_max_def)

lemma random_sample_in:
  assumes "random_sample xs k g = Inr (ys, g')"
  shows "set ys \<subseteq> set xs \<and> length ys = k"
proof -
  from assms have k: "k \<le> length xs" and ys: "ys = fst (pick_distinct xs k g)"
    by (auto simp: random_sample_def split: if_splits)
  from set_pick_distinct [OF k, of g] length_pick_distinct [of xs k g] ys show ?thesis by simp
qed

lemma tournament_in:
  assumes "tournament population h g = Inr (winner, g')"
  shows "winner \<in> set population"
proof -
  from assms obtain t g1 where t: "random_sample population 4 g = Inr (t, g1)"
    and w: "py_max (\<lambda>x. fitness (h ! x)) t = Inr winner"
    by (auto simp: tournament_def split: sum.splits)
  from random_sample_in [OF t] py_max_in [OF w] show ?thesis by auto
qed

lemma selection_in:
  assumes "selection population h g = Inr (parents, g')"
  shows "set parents \<subseteq> set population"
proof (cases "length population < 4")
  case True
  with assms have "random_sample population (min 2 (length population)) g = Inr (parents, g')"
    by (simp add: selection_def)
  from random_sample_in [OF this] show ?thesis by simp
next
  case False
  with assms obtain w1 g1 w2 where "tournament population h g = Inr (w1, g1)"
    "tournament population h g1 = Inr (w2, g')" "parents = [w1, w2]"
    by (auto simp: selection_def split: sum.splits)
  then show ?thesis by (auto dest: tournament_in)
qed

lemma refs_in_subset: "refs_in h rs \<Longrightarrow> set rs' \<subseteq> set rs \<Longrightarrow> refs_in h rs'"
  by (auto simp: refs_in_def list_all_iff)

lemma heap_ok_nth: "heap_ok its mw h \<Longrightarrow> r < length h \<Longrightarrow> well_formed its mw (h ! r)"
  by (simp add: heap_ok_def list_all_length)

lemma refs_in_nth: "refs_in h rs \<Longrightarrow> i < length rs \<Longrightarrow> rs ! i < length h"
  by (simp add: refs_in_def list_all_length)

lemma random_randint_range:
  "random_randint a b g = Inr (n, g') \<Longrightarrow> a \<le> n \<and> n \<le> b"
proof -
  assume r: "random_randint a b g = Inr (n, g')"
  then have ab: "a \<le> b" by (auto simp: random_randint_def split: if_splits)
  obtain d g1 where d: "draw g = (d, g1)" by (cases "draw g")
  with r ab have n: "n = a + d mod (b - a + 1)" by (simp add: random_randint_def)
  have "0 \<le> d mod (b - a + 1)" "d mod (b - a + 1) < b - a + 1"
    using ab pos_mod_sign [of "b - a + 1" d] pos_mod_bound [of "b - a + 1" d] by linarith+
  with n show ?thesis by simp
qed

lemma bit_list_take_drop:
  "bit_list a \<Longrightarrow> bit_list b \<Longrightarrow> bit_list (take p a @ drop p b)"
  by (auto simp: bit_list_def list_all_iff dest: in_set_takeD in_set_dropD)

lemma crossover_ok:
  assumes c: "crossover parents its mw cr h g = Inr (children, h', g')"
    and h: "heap_ok its mw h" and r: "refs_in h parents"
  shows "heap_ok its mw h' \<and> refs_in h' children \<and> length h \<le> length h'"
proof (cases "length parents < 2")
  case True
  with c h r show ?thesis by (simp add: crossover_def)
next
  case False
  obtain u g1 where u: "random_random g = (u, g1)" by (cases "random_random g")
  show ?thesis
  proof (cases "u > cr")
    case True
    with c h r False u show ?thesis by (simp add: crossover_def)
  next
    case no: False
    from c False u no obtain cp g2 where
      cp: "random_randint 1 (int (length its) - 1) g1 = Inr (cp, g2)"
      by (auto simp: crossover_def split: sum.splits)
    define p where "p = nat cp"
    define c1 where "c1 = \<lparr>bits = take p (bits (h ! (parents ! 0))) @ drop p (bits (h ! (parents ! 1))),
       items = its, max_weight = mw\<rparr>"
    define c2 where "c2 = \<lparr>bits = take p (bits (h ! (parents ! 1))) @ drop p (bits (h ! (parents ! 0))),
       items = its, max_weight = mw\<rparr>"
    from c False u no cp have res: "children = [length h, Suc (length h)]" "h' = h @ [c1, c2]"
      by (auto simp: crossover_def Let_def new_Individual_def p_def c1_def c2_def)
    from False have "0 < length parents" "1 < length parents" by linarith+
    with r have "parents ! 0 < length h" "parents ! 1 < length h"
      by (auto dest: refs_in_nth)
    with h have w0: "well_formed its mw (h ! (parents ! 0))" and w1: "well_formed its mw (h ! (parents ! 1))"
      by (auto dest: heap_ok_nth)
    from random_randint_range [OF cp] have "p \<le> length its" unfolding p_def by linarith
    with w0 w1 have "well_formed its mw c1" "well_formed its mw c2"
      by (auto simp: well_formed_def c1_def c2_def intro: bit_list_take_drop)
    with h have "heap_ok its mw h'" by (simp add: res heap_ok_def)
    then show ?thesis by (simp add: res refs_in_def)
  qed
qed

lemma well_formed_flip:
  assumes "well_formed its mw c"
  shows "well_formed its mw (c\<lparr>bits := (bits c)[i := 1 - bits c ! i]\<rparr>)"
proof -
  have "bit_list ((bits c)[i := 1 - bits c ! i])"
  proof (cases "i < length (bits c)")
    case True
    with assms have "bits c ! i = 0 \<or> bits c ! i = 1"
      by (auto simp: well_formed_def bit_list_def list_all_length)
    then have "1 - bits c ! i = 0 \<or> 1 - bits c ! i = 1" by auto
    with assms show ?thesis
      by (auto simp: well_formed_def bit_list_def list_all_iff dest!: subsetD [OF set_update_subset_insert])
  next
    case False
    with assms show ?thesis by (simp add: well_formed_def list_update_beyond)
  qed
  with assms show ?thesis by (simp add: well_formed_def)
qed

lemma flip_in_place_ok:
  assumes "heap_ok its mw h"
  shows "heap_ok its mw (flip_in_place r i h) \<and> length (flip_in_place r i h) = length h"
proof (cases "r < length h")
  case True
  with assms have "well_formed its mw (h ! r)" by (rule heap_ok_nth)
  then have "well_formed its mw ((h ! r)\<lparr>bits := (bits (h ! r))[i := 1 - bits (h ! r) ! i]\<rparr>)"
    by (rule well_formed_flip)
  with assms show ?thesis
    by (auto simp: flip_in_place_def heap_ok_def list_all_iff dest!: subsetD [OF set_update_subset_insert])
next
  case False
  with assms show ?thesis by (simp add: flip_in_place_def list_update_beyond)
qed

lemma mutate_individual_ok:
  assumes "mutate_individual r is rate h g = (h', g')" and "heap_ok its mw h"
  shows "heap_ok its mw h' \<and> length h' = length h"
  using assms
proof (induction "is" arbitrary: h g)
  case Nil
  then show ?case by simp
next
  case (Cons i "is")
  obtain u g1 where u: "random_random g = (u, g1)" by (cases "random_random g")
  define h1 where "h1 = (if u < rate then flip_in_place r i h else h)"
  from Cons.prems(1) u have rec: "mutate_individual r is rate h1 g1 = (h', g')"
    by (simp add: h1_def)
  have h1: "heap_ok its mw h1 \<and> length h1 = length h"
    using flip_in_place_ok [OF Cons.prems(2), of r i] Cons.prems(2) by (simp add: h1_def)
  from Cons.IH [OF rec] h1 show ?case by simp
qed

lemma mutate_ok:
  assumes "mutate rs rate h g = (h', g')" and "heap_ok its mw h"
  shows "heap_ok its mw h' \<and> length h' = length h"
  using assms
proof (induction rs arbitrary: h g)
  case Nil
  then show ?case by simp
next
  case (Cons r rs)
  obtain h1 g1 where m: "mutate_individual r [0..<length (bits (h ! r))] rate h g = (h1, g1)"
    by (cases "mutate_individual r [0..<length (bits (h ! r))] rate h g")
  with Cons.prems(1) have rec: "mutate rs rate h1 g1 = (h', g')" by simp
  from mutate_individual_ok [OF m Cons.prems(2)] Cons.IH [OF rec] show ?case by simp
qed

lemma next_generation_loop_ok:
  assumes "next_generation_loop next_gen population its mw cr mr h g = Inr (ng', h', g')"
    and "heap_ok its mw h" and "refs_in h next_gen" and "refs_in h population"
  shows "heap_ok its mw h' \<and> refs_in h' ng' \<and> length h \<le> length h'
         \<and> length population \<le> length ng'"
  using assms
proof (induction next_gen population its mw cr mr h g rule: next_generation_loop.induct)
  case (1 next_gen population its mw cr mr h g)
  show ?case
  proof (cases "length next_gen < length population")
    case False
    with "1.prems" show ?thesis by (simp add: next_generation_loop.simps [of next_gen])
  next
    case True
    from "1.prems"(1) True obtain parents g1 where
      sel: "selection population h g = Inr (parents, g1)"
      by (auto simp: next_generation_loop.simps [of next_gen] split: sum.splits)
    from "1.prems"(1) True sel obtain children h1 g2 where
      cro: "crossover parents its mw cr h g1 = Inr (children, h1, g2)"
      by (auto simp: next_generation_loop.simps [of next_gen] split: sum.splits)
    obtain h2 g3 where mut: "mutate children mr h1 g2 = (h2, g3)"
      by (cases "mutate children mr h1 g2")
    from "1.prems"(1) True sel cro mut have
      rec: "next_generation_loop (next_gen @ children) population its mw cr mr h2 g3 = Inr (ng', h', g')"
      by (simp add: next_generation_loop.simps [of next_gen])
    have par: "refs_in h parents"
      using "1.prems"(4) selection_in [OF sel] by (rule refs_in_subset)
    from crossover_ok [OF cro "1.prems"(2) par]
    have c: "heap_ok its mw h1" "refs_in h1 children" "length h \<le> length h1" by simp_all
    from mutate_ok [OF mut c(1)] have m: "heap_ok its mw h2" "length h2 = length h1" by simp_all
    have r1: "refs_in h2 (next_gen @ children)"
      using "1.prems"(3) c(2,3) m(2) by (auto simp: refs_in_def list_all_iff)
    have r2: "refs_in h2 population"
      using "1.prems"(4) c(3) m(2) by (auto simp: refs_in_def list_all_iff)
    from "1.IH" [OF True sel refl cro refl refl mut [symmetric] rec m(1) r1 r2] c(3) m(2)
    show ?thesis by simp
  qed
qed

lemma next_generation_ok:
  assumes n: "next_generation population its mw cr mr h g = Inr (population', h', g')"
    and h: "heap_ok its mw h" and r: "refs_in h population"
  shows "heap_ok its mw h' \<and> refs_in h' population' \<and> length h \<le> length h'
         \<and> length population' = length population"
proof -
  define next_gen where
    "next_gen = take (max 1 (length population div 10)) (sort_key (\<lambda>x. - fitness (h ! x)) population)"
  from n obtain ng' where
    loop: "next_generation_loop next_gen population its mw cr mr h g = Inr (ng', h', g')"
    and res: "population' = take (length population) ng'"
    by (auto simp: next_generation_def Let_def next_gen_def split: sum.splits)
  have "set next_gen \<subseteq> set population"
    unfolding next_gen_def by (auto dest: in_set_takeD)
  with r have "refs_in h next_gen" by (rule refs_in_subset)
  from next_generation_loop_ok [OF loop h this r]
  have ok: "heap_ok its mw h'" "refs_in h' ng'" "length h \<le> length h'"
    "length population \<le> length ng'" by simp_all
  have "refs_in h' population'"
    using ok(2) unfolding res by (rule refs_in_subset) (auto dest: in_set_takeD)
  with ok res show ?thesis by simp
qed

lemma generation_step_ok:
  assumes s: "generation_step population best its mw cr mr h g = Inr (population', best', h', g')"
    and h: "heap_ok its mw h" and r: "refs_in h population" and b: "best_in h best"
  shows "heap_ok its mw h' \<and> refs_in h' population' \<and> best_in h' best'
         \<and> length population' = length population"
proof -
  from s obtain current_best where
    n: "next_generation population its mw cr mr h g = Inr (population', h', g')"
    and m: "py_max (\<lambda>x. fitness (h' ! x)) population' = Inr current_best"
    and bb: "best' = Some current_best \<or> best' = best"
    by (auto simp: generation_step_def split: sum.splits option.splits if_splits)
  from next_generation_ok [OF n h r]
  have ok: "heap_ok its mw h'" "refs_in h' population'" "length h \<le> length h'"
    "length population' = length population" by simp_all
  from py_max_in [OF m] ok(2) have "current_best < length h'"
    by (auto simp: refs_in_def list_all_iff)
  moreover from b ok(3) have "best_in h' best"
    by (auto simp: best_in_def split: option.splits)
  ultimately have "best_in h' best'" using bb by (auto simp: best_in_def)
  with ok show ?thesis by simp
qed

lemma evolve_ok:
  assumes "evolve n population best its mw cr mr h g = Inr (population', best', h', g')"
    and "heap_ok its mw h" and "refs_in h population" and "best_in h best"
  shows "heap_ok its mw h' \<and> refs_in h' population' \<and> best_in h' best'
         \<and> length population' = length population"
  using assms
proof (induction n arbitrary: population best h g)
  case 0
  then show ?case by simp
next
  case (Suc n)
  from Suc.prems(1) obtain p1 b1 h1 g1 where
    s: "generation_step population best its mw cr mr h g = Inr (p1, b1, h1, g1)"
    and e: "evolve n p1 b1 its mw cr mr h1 g1 = Inr (population', best', h', g')"
    by (auto split: sum.splits)
  from generation_step_ok [OF s Suc.prems(2,3,4)]
  have ok: "heap_ok its mw h1" "refs_in h1 p1" "best_in h1 b1" "length p1 = length population"
    by simp_all
  from Suc.IH [OF e ok(1,2,3)] ok(4) show ?case by simp
qed

lemma py_max_default_in: "py_max_default key xs = Some w \<Longrightarrow> w \<in> set xs"
  using max_from_in [of key "hd xs" "tl xs"]
  by (cases xs) (auto simp: py_max_default_def)

lemma evolution_ok:
  assumes e: "evolution population_size its mw generations cr mr h g = Some (Inr (population, best, h', g'))"
    and h: "heap_ok its mw h"
  shows "heap_ok its mw h' \<and> refs_in h' population \<and> best_in h' best
         \<and> int (length population) = max 0 population_size"
proof -
  from generate_initial_population_ok [OF h, of population_size g]
  obtain p0 h0 g0 where
    i: "generate_initial_population population_size its mw h g = Some (p0, h0, g0)"
    and ok: "heap_ok its mw h0" "refs_in h0 p0" "int (length p0) = max 0 population_size"
    by blast
  define b0 where "b0 = py_max_default (\<lambda>x. fitness (h0 ! x)) p0"
  from e i have ev: "evolve (nat generations) p0 b0 its mw cr mr h0 g0 = Inr (population, best, h', g')"
    by (simp add: evolution_def b0_def)
  have "best_in h0 b0"
    using ok(2) py_max_default_in [of "\<lambda>x. fitness (h0 ! x)" p0]
    by (auto simp: best_in_def b0_def refs_in_def list_all_iff split: option.splits)
  from evolve_ok [OF ev ok(1,2) this] ok(3) show ?thesis by simp
qed

section \<open>Population size and candidate shape\<close>

lemma candidates_okI:
  assumes "heap_ok its mw h" and "refs_in h population"
  shows "candidates_ok its h population"
  using assms
  by (auto simp: candidates_ok_def refs_in_def list_all_iff heap_ok_def well_formed_def)

text \<open>
  C6. For a non-negative \<open>population_size\<close>: the initializer returns exactly that many
  candidates, every generation transition that returns a population preserves the size,
  and so every population of a run (the one after any number of generations) has exactly
  \<open>population_size\<close> candidates; every candidate of every such population has a bit
  vector of the catalog's length over \<open>{0, 1}\<close>.
\<close>

theorem population_size_invariant:
  assumes "0 \<le> population_size"
  shows "(\<exists>population h g'.
            generate_initial_population population_size its mw [] g = Some (population, h, g')
            \<and> int (length population) = population_size \<and> candidates_ok its h population)
       \<and> (\<forall>population h cr mr g1 population' h' g'.
            heap_ok its mw h \<and> refs_in h population
            \<and> next_generation population its mw cr mr h g1 = Inr (population', h', g')
            \<longrightarrow> length population' = length population \<and> candidates_ok its h' population')
       \<and> (\<forall>generations cr mr population best h g'.
            evolution population_size its mw generations cr mr [] g = Some (Inr (population, best, h, g'))
            \<longrightarrow> int (length population) = population_size \<and> candidates_ok its h population)"
proof (intro conjI allI impI)
  have e: "heap_ok its mw []" by (simp add: heap_ok_def)
  from generate_initial_population_ok [OF e, of population_size g] assms
  show "\<exists>population h g'.
          generate_initial_population population_size its mw [] g = Some (population, h, g')
          \<and> int (length population) = population_size \<and> candidates_ok its h population"
    by (auto intro: candidates_okI)
next
  fix population h cr mr g1 population' h' g'
  assume a: "heap_ok its mw h \<and> refs_in h population
     \<and> next_generation population its mw cr mr h g1 = Inr (population', h', g')"
  then have "next_generation population its mw cr mr h g1 = Inr (population', h', g')"
    "heap_ok its mw h" "refs_in h population" by simp_all
  from next_generation_ok [OF this]
  show "length population' = length population" "candidates_ok its h' population'"
    by (auto intro: candidates_okI)
next
  fix generations cr mr population best h g'
  assume "evolution population_size its mw generations cr mr [] g = Some (Inr (population, best, h, g'))"
  moreover have "heap_ok its mw []" by (simp add: heap_ok_def)
  ultimately have "heap_ok its mw h \<and> refs_in h population \<and> best_in h best
         \<and> int (length population) = max 0 population_size" by (rule evolution_ok)
  with assms show "int (length population) = population_size" "candidates_ok its h population"
    by (auto intro: candidates_okI)
qed

theorem population_size_invariant_witness:
  "\<exists>population best h g'.
     evolution 2 [item_A, item_B] 5 1 (53 / 100) (13 / 1000) []
       [1, 1, 1, 1, 0, 0, 0, 0, 6755399441055744, 0, 6755399441055744, 6755399441055744, 6755399441055744]
       = Some (Inr (population, best, h, g'))
     \<and> int (length population) = 2 \<and> candidates_ok [item_A, item_B] h population"
proof -
  have run: "evolution 2 [item_A, item_B] 5 1 (53 / 100) (13 / 1000) []
       [1, 1, 1, 1, 0, 0, 0, 0, 6755399441055744, 0, 6755399441055744, 6755399441055744, 6755399441055744]
     = Some (Inr ([0, 0], Some 0,
         [\<lparr>bits = [0, 1], items = [item_A, item_B], max_weight = 5\<rparr>,
          \<lparr>bits = [1, 1], items = [item_A, item_B], max_weight = 5\<rparr>], []))"
    by code_simp
  have "(0::int) \<le> 2" by simp
  from population_size_invariant [OF this, of "[item_A, item_B]" 5
      "[1, 1, 1, 1, 0, 0, 0, 0, 6755399441055744, 0, 6755399441055744, 6755399441055744, 6755399441055744]"]
  have "\<forall>generations cr mr population best h g'.
          evolution 2 [item_A, item_B] 5 generations cr mr []
            [1, 1, 1, 1, 0, 0, 0, 0, 6755399441055744, 0, 6755399441055744, 6755399441055744, 6755399441055744]
            = Some (Inr (population, best, h, g'))
          \<longrightarrow> int (length population) = 2 \<and> candidates_ok [item_A, item_B] h population"
    by blast
  with run show ?thesis by blast
qed

section \<open>Result projection\<close>

lemma selected_sum:
  assumes "list_all (\<lambda>(item, bit). bit = 0 \<or> bit = (1::int)) zs"
  shows "sum_list (map (\<lambda>(item, bit). bit * f item) zs)
         = sum_list (map f (map fst (filter (\<lambda>(item, bit). bit = 1) zs)))"
  using assms by (induction zs) auto

lemma well_formed_sums:
  assumes "well_formed its mw c"
  shows "total_value c = sum_list (map item_value (get_selected_items c))"
    and "get_total_weight c = sum_list (map item_weight (get_selected_items c))"
proof -
  from assms have "bit_list (bits c)" by (simp add: well_formed_def)
  then have z: "list_all (\<lambda>(item, bit). bit = 0 \<or> bit = (1::int)) (zip (items c) (bits c))"
    by (auto simp: bit_list_def list_all_iff dest: set_zip_rightD)
  show "total_value c = sum_list (map item_value (get_selected_items c))"
    unfolding total_value_def get_selected_items_def by (rule selected_sum [OF z])
  show "get_total_weight c = sum_list (map item_weight (get_selected_items c))"
    unfolding get_total_weight_def get_selected_items_def by (rule selected_sum [OF z])
qed

text \<open>
  C1 as the code has it. Every success result is the projection of the final best-so-far
  candidate: when that candidate's total weight is within the cap, the result reports
  exactly its selected items, their summed value and their summed weight; otherwise, and
  when there is no candidate at all, it is exactly the empty selection with value 0 and
  weight 0. For a cap that is not negative the reported weight never exceeds the cap.
\<close>

theorem solve_result_projection:
  assumes "solve_knapsack data g = Some (Result sel tv tw, code, h, g')"
  shows "\<exists>population best.
           evolution (get (req_population_size data) 6) (get (req_items data) [])
             (get (req_max_weight data) 15) (get (req_generations data) 100)
             (get (req_crossover_rate data) (53 / 100)) (get (req_mutation_rate data) (13 / 1000)) [] g
           = Some (Inr (population, best, h, g'))
         \<and> (case best of
               None \<Rightarrow> sel = [] \<and> tv = 0 \<and> tw = 0
             | Some b \<Rightarrow>
                 if get_total_weight (h ! b) \<le> get (req_max_weight data) 15
                 then sel = get_selected_items (h ! b)
                      \<and> tv = sum_list (map item_value sel)
                      \<and> tw = sum_list (map item_weight sel)
                      \<and> tw = get_total_weight (h ! b)
                 else sel = [] \<and> tv = 0 \<and> tw = 0)
         \<and> (0 \<le> get (req_max_weight data) 15 \<longrightarrow> tw \<le> get (req_max_weight data) 15)"
proof -
  define mw where "mw = get (req_max_weight data) 15"
  define its where "its = get (req_items data) []"
  from assms obtain population best where
    ev: "evolution (get (req_population_size data) 6) its mw (get (req_generations data) 100)
           (get (req_crossover_rate data) (53 / 100)) (get (req_mutation_rate data) (13 / 1000)) [] g
         = Some (Inr (population, best, h, g'))"
    and pr: "project_result best mw h = Result sel tv tw"
    by (auto simp: solve_knapsack_def Let_def mw_def its_def
        split: if_splits option.splits sum.splits)
  have "heap_ok its mw []" by (simp add: heap_ok_def)
  from evolution_ok [OF ev this] have ok: "heap_ok its mw h" "best_in h best" by simp_all
  have shape: "(case best of
               None \<Rightarrow> sel = [] \<and> tv = 0 \<and> tw = 0
             | Some b \<Rightarrow>
                 if get_total_weight (h ! b) \<le> mw
                 then sel = get_selected_items (h ! b)
                      \<and> tv = sum_list (map item_value sel)
                      \<and> tw = sum_list (map item_weight sel)
                      \<and> tw = get_total_weight (h ! b)
                 else sel = [] \<and> tv = 0 \<and> tw = 0)"
  proof (cases best)
    case None
    with pr show ?thesis by (simp add: project_result_def)
  next
    case (Some b)
    with ok have wf: "well_formed its mw (h ! b)"
      by (auto simp: best_in_def dest: heap_ok_nth)
    then have mwb: "max_weight (h ! b) = mw" by (simp add: well_formed_def)
    show ?thesis
    proof (cases "get_total_weight (h ! b) \<le> mw")
      case True
      with pr Some mwb have "sel = get_selected_items (h ! b)" "tv = total_value (h ! b)"
        "tw = get_total_weight (h ! b)"
        by (simp_all add: project_result_def fitness_def Let_def)
      with well_formed_sums [OF wf] True Some show ?thesis by simp
    next
      case False
      with pr Some show ?thesis by (simp add: project_result_def)
    qed
  qed
  moreover from shape have "0 \<le> mw \<longrightarrow> tw \<le> mw"
    by (auto split: option.splits if_splits)
  ultimately show ?thesis using ev unfolding mw_def its_def by blast
qed

theorem solve_result_projection_witness:
  "\<exists>population best h g'.
     evolution 2 [item_A, item_B] 5 1 (53 / 100) (13 / 1000) []
       [1, 1, 1, 1, 0, 0, 0, 0, 6755399441055744, 0, 6755399441055744, 6755399441055744, 6755399441055744]
     = Some (Inr (population, best, h, g'))
     \<and> best = Some 0 \<and> get_total_weight (h ! 0) \<le> 5
     \<and> [item_B] = get_selected_items (h ! 0) \<and> (3::int) \<le> 5"
proof -
  let ?data = "\<lparr>req_items = Some [item_A, item_B], req_max_weight = Some 5,
      req_population_size = Some 2, req_generations = Some 1,
      req_crossover_rate = None, req_mutation_rate = None\<rparr>"
  let ?g = "[1, 1, 1, 1, 0, 0, 0, 0, 6755399441055744, 0, 6755399441055744, 6755399441055744, 6755399441055744]"
  let ?h = "[\<lparr>bits = [0, 1], items = [item_A, item_B], max_weight = 5\<rparr>,
          \<lparr>bits = [1, 1], items = [item_A, item_B], max_weight = 5\<rparr>]"
  have run: "solve_knapsack ?data ?g = Some (Result [item_B] 4 3, 200, ?h, [])"
    by code_simp
  have ev: "evolution 2 [item_A, item_B] 5 1 (53 / 100) (13 / 1000) [] ?g
     = Some (Inr ([0, 0], Some 0, ?h, []))"
    by code_simp
  have w: "get_total_weight (?h ! 0) \<le> 5"
    by code_simp
  from solve_result_projection [OF run] ev
  have "if get_total_weight (?h ! 0) \<le> 5
        then [item_B] = get_selected_items (?h ! 0)
             \<and> (4::int) = sum_list (map item_value [item_B])
             \<and> (3::int) = sum_list (map item_weight [item_B])
             \<and> 3 = get_total_weight (?h ! 0)
        else [item_B] = [] \<and> (4::int) = 0 \<and> (3::int) = 0"
    by (simp add: get_def)
  with w have "[item_B] = get_selected_items (?h ! 0)" by (simp only: if_True)
  with ev w show ?thesis by simp
qed

text \<open>
  C1 as stated fails for a negative cap: no candidate is feasible, the route answers with
  the empty selection, and the weight 0 it reports is above the cap.
\<close>

theorem negative_cap_reports_weight_above_cap:
  "solve_knapsack \<lparr>req_items = Some [item_A], req_max_weight = Some (- 1),
      req_population_size = Some 1, req_generations = Some 0,
      req_crossover_rate = None, req_mutation_rate = None\<rparr> []
   = Some (Result [] 0 0, 200, [\<lparr>bits = [0], items = [item_A], max_weight = - 1\<rparr>], [])
   \<and> total_weight_field (Result [] 0 0) > (- 1 :: int)"
  by code_simp

section \<open>Crossover\<close>

lemma residues_onto_points:
  assumes "2 \<le> n"
  shows "bij_betw (\<lambda>r. nat (1 + r mod (int n - 1))) {0..<int n - 1} {1..n - 1}"
proof (rule bij_betw_byWitness [where f' = "\<lambda>q. int q - 1"])
  show "\<forall>r\<in>{0..<int n - 1}. int (nat (1 + r mod (int n - 1))) - 1 = r"
    by auto
  show "\<forall>q\<in>{1..n - 1}. nat (1 + (int q - 1) mod (int n - 1)) = q"
    using assms by auto
  show "(\<lambda>r. nat (1 + r mod (int n - 1))) ` {0..<int n - 1} \<subseteq> {1..n - 1}"
    using assms by auto
  show "(\<lambda>q. int q - 1) ` {1..n - 1} \<subseteq> {0..<int n - 1}"
    using assms by auto
qed

text \<open>
  C5 as the code has it. When crossover receives two parents, the recombination draw does
  not exceed \<open>crossover_rate\<close> and the catalog has at least two items, the crossover point
  is what \<open>random.randint(1, |catalog| - 1)\<close> returns on the generator's next outcome \<open>d\<close>:
  \<open>p = 1 + d mod (|catalog| - 1)\<close>, a point of \<open>[1, |catalog| - 1]\<close>. The residues of \<open>d\<close>
  correspond one to one to the points of that range, so an outcome that is uniform over
  the residues gives a point that is uniform over the range. The function returns exactly
  the two fresh children \<open>parent0.bits[0:p] + parent1.bits[p:]\<close> and
  \<open>parent1.bits[0:p] + parent0.bits[p:]\<close>. Both children differ from both parents exactly
  when the parents differ before \<open>p\<close> and differ from \<open>p\<close> on.
\<close>

theorem crossover_recombines:
  assumes two: "length parents = 2"
    and trig: "fst (random_random g) \<le> cr"
    and many: "2 \<le> length its"
  shows "let d = fst (draw (snd (draw g)));
             g' = snd (draw (snd (draw g)));
             n = length its;
             p = nat (1 + d mod (int n - 1));
             a = bits (h ! (parents ! 0)); b = bits (h ! (parents ! 1));
             child1 = take p a @ drop p b; child2 = take p b @ drop p a
         in random_randint 1 (int n - 1) (snd (random_random g)) = Inr (int p, g')
            \<and> 1 \<le> p \<and> p \<le> n - 1
            \<and> bij_betw (\<lambda>r. nat (1 + r mod (int n - 1))) {0..<int n - 1} {1..n - 1}
            \<and> crossover parents its mw cr h g =
                 Inr ([length h, Suc (length h)],
                      h @ [\<lparr>bits = child1, items = its, max_weight = mw\<rparr>,
                           \<lparr>bits = child2, items = its, max_weight = mw\<rparr>], g')
            \<and> ((child1 \<noteq> a \<and> child1 \<noteq> b \<and> child2 \<noteq> a \<and> child2 \<noteq> b)
                 \<longleftrightarrow> (take p a \<noteq> take p b \<and> drop p a \<noteq> drop p b))"
proof -
  obtain d0 g1 where d0: "draw g = (d0, g1)" by (cases "draw g")
  obtain d g2 where d: "draw g1 = (d, g2)" by (cases "draw g1")
  define u :: rat where "u = of_int (d0 mod 2 ^ 53) / 2 ^ 53"
  have u: "random_random g = (u, g1)" using d0 by (simp add: random_random_def u_def)
  with trig have no: "\<not> u > cr" by simp
  define cp where "cp = 1 + d mod (int (length its) - 1)"
  define p where "p = nat cp"
  from many have pos: "0 < int (length its) - 1" by simp
  have range: "1 \<le> cp" "cp \<le> int (length its) - 1"
    using pos_mod_sign [OF pos, of d] pos_mod_bound [OF pos, of d] by (simp_all add: cp_def)
  then have p: "1 \<le> p" "p \<le> length its - 1" unfolding p_def by linarith+
  from range have ip: "int p = cp" unfolding p_def by simp
  have ri: "random_randint 1 (int (length its) - 1) g1 = Inr (cp, g2)"
    using many d by (simp add: random_randint_def cp_def)
  define a where "a = bits (h ! (parents ! 0))"
  define b where "b = bits (h ! (parents ! 1))"
  have c: "crossover parents its mw cr h g =
      Inr ([length h, Suc (length h)],
           h @ [\<lparr>bits = take p a @ drop p b, items = its, max_weight = mw\<rparr>,
                \<lparr>bits = take p b @ drop p a, items = its, max_weight = mw\<rparr>], g2)"
    using two u no ri
    by (simp add: crossover_def Let_def new_Individual_def p_def a_def b_def)
  have e1: "take p a @ drop p b = a \<longleftrightarrow> drop p a = drop p b"
    using same_append_eq [of "take p a" "drop p b" "drop p a"] by auto
  have e2: "take p a @ drop p b = b \<longleftrightarrow> take p a = take p b"
    using append_same_eq [of "take p a" "drop p b" "take p b"] by auto
  have e3: "take p b @ drop p a = b \<longleftrightarrow> drop p a = drop p b"
    using same_append_eq [of "take p b" "drop p a" "drop p b"] by auto
  have e4: "take p b @ drop p a = a \<longleftrightarrow> take p a = take p b"
    using append_same_eq [of "take p b" "drop p a" "take p a"] by auto
  have diff: "(take p a @ drop p b \<noteq> a \<and> take p a @ drop p b \<noteq> b
         \<and> take p b @ drop p a \<noteq> a \<and> take p b @ drop p a \<noteq> b)
        \<longleftrightarrow> (take p a \<noteq> take p b \<and> drop p a \<noteq> drop p b)"
    unfolding e1 e2 e3 e4 by blast
  note bij = residues_onto_points [OF many]
  have ri': "random_randint 1 (int (length its) - 1) (snd (random_random g)) = Inr (int p, g2)"
    using ri u ip by simp
  from ri' p bij c diff show ?thesis
    unfolding Let_def d0 d snd_conv fst_conv a_def b_def p_def cp_def by blast
qed

theorem crossover_recombines_witness:
  "random_randint 1 2 [1] = Inr (2, [])
   \<and> crossover [0, 1] [item_A, item_B, item_C] 9 (53 / 100)
          [\<lparr>bits = [1, 0, 0], items = [item_A, item_B, item_C], max_weight = 9\<rparr>,
           \<lparr>bits = [0, 1, 1], items = [item_A, item_B, item_C], max_weight = 9\<rparr>] [0, 1]
        = Inr ([2, 3],
            [\<lparr>bits = [1, 0, 0], items = [item_A, item_B, item_C], max_weight = 9\<rparr>,
             \<lparr>bits = [0, 1, 1], items = [item_A, item_B, item_C], max_weight = 9\<rparr>,
             \<lparr>bits = [1, 0, 1], items = [item_A, item_B, item_C], max_weight = 9\<rparr>,
             \<lparr>bits = [0, 1, 0], items = [item_A, item_B, item_C], max_weight = 9\<rparr>], [])"
proof -
  have t: "fst (random_random [0, 1]) \<le> 53 / 100"
    by (simp add: random_random_def)
  have l: "length [0::nat, 1] = 2" "2 \<le> length [item_A, item_B, item_C]" by simp_all
  from crossover_recombines [OF l(1) t l(2), where mw = 9 and h =
      "[\<lparr>bits = [1, 0, 0], items = [item_A, item_B, item_C], max_weight = 9\<rparr>,
        \<lparr>bits = [0, 1, 1], items = [item_A, item_B, item_C], max_weight = 9\<rparr>]"]
  show ?thesis by (simp add: Let_def random_random_def)
qed

text \<open>
  C5 as stated fails: with more than one item the children need not differ from the
  parents. For the parents \<open>[1, 0, 1]\<close> and \<open>[1, 1, 1]\<close> and the point 1 the children
  are \<open>[1, 1, 1]\<close> and \<open>[1, 0, 1]\<close>: the parents again.
\<close>

theorem crossover_children_equal_parents:
  "crossover [0, 1] [item_A, item_B, item_C] 9 (53 / 100)
     [\<lparr>bits = [1, 0, 1], items = [item_A, item_B, item_C], max_weight = 9\<rparr>,
      \<lparr>bits = [1, 1, 1], items = [item_A, item_B, item_C], max_weight = 9\<rparr>] [0, 0]
   = Inr ([2, 3],
     [\<lparr>bits = [1, 0, 1], items = [item_A, item_B, item_C], max_weight = 9\<rparr>,
      \<lparr>bits = [1, 1, 1], items = [item_A, item_B, item_C], max_weight = 9\<rparr>,
      \<lparr>bits = [1, 1, 1], items = [item_A, item_B, item_C], max_weight = 9\<rparr>,
      \<lparr>bits = [1, 0, 1], items = [item_A, item_B, item_C], max_weight = 9\<rparr>], [])"
  by code_simp

section \<open>Requests without items\<close>

text \<open>
  C8. When the items of a request are absent or empty, the route answers with an error
  mapping and status 400. It returns on an empty heap and with the tape untouched: no
  \<open>Individual\<close> was created (so no fitness was evaluated: fitness is only ever taken of
  objects of the heap) and nothing was drawn.
\<close>

theorem solve_without_items:
  assumes "req_items data = None \<or> req_items data = Some []"
  shows "solve_knapsack data g = Some (Error No_items_provided, 400, [], g)
         \<or> solve_knapsack data g = Some (Error Invalid_input_format, 400, [], g)"
  using assms by (auto simp: solve_knapsack_def get_def Let_def)

theorem solve_without_items_witness:
  "solve_knapsack \<lparr>req_items = Some [], req_max_weight = Some 5, req_population_size = Some 6,
       req_generations = Some 50, req_crossover_rate = None, req_mutation_rate = None\<rparr> [1, 0, 1]
     = Some (Error No_items_provided, 400, [], [1, 0, 1])
   \<and> solve_knapsack \<lparr>req_items = None, req_max_weight = None, req_population_size = None,
       req_generations = None, req_crossover_rate = None, req_mutation_rate = None\<rparr> [1, 0, 1]
     = Some (Error Invalid_input_format, 400, [], [1, 0, 1])"
  using solve_without_items [of "\<lparr>req_items = Some [], req_max_weight = Some 5, req_population_size = Some 6,
       req_generations = Some 50, req_crossover_rate = None, req_mutation_rate = None\<rparr>" "[1, 0, 1]"]
    solve_without_items [of "\<lparr>req_items = None, req_max_weight = None, req_population_size = None,
       req_generations = None, req_crossover_rate = None, req_mutation_rate = None\<rparr>" "[1, 0, 1]"]
  by (simp add: solve_knapsack_def no_data_def get_def)

section \<open>One-item catalogs\<close>



section \<open>What a call reads\<close>

text \<open>
  Every function of the solver reads the tape from its head, one outcome per draw, and
  looks at nothing beyond the outcomes it consumes.
\<close>

lemma same_draws_iff: "same_draws n g1 g2 \<longleftrightarrow> (\<forall>i<n. outcome g1 i = outcome g2 i)"
  by (auto simp: same_draws_def)

lemma outcome_drop: "outcome (drop n g) i = outcome g (n + i)"
  by (auto simp: outcome_def)

lemma same_draws_refl: "same_draws n g g"
  by (simp add: same_draws_def)

lemma same_draws_add:
  assumes "same_draws (n + m) g g2"
  shows "same_draws n g g2" and "same_draws m (drop n g) (drop n g2)"
  using assms by (auto simp: same_draws_iff outcome_drop)

lemma draw_outcome: "draw g = (outcome g 0, drop 1 g)"
  by (cases g) (simp_all add: outcome_def)

lemma readsI: "(\<And>g2. same_draws n g g2 \<Longrightarrow> f g2 = c (drop n g2)) \<Longrightarrow> reads f g n c"
  by (simp add: reads_def)

lemma readsD: "reads f g n c \<Longrightarrow> same_draws n g g2 \<Longrightarrow> f g2 = c (drop n g2)"
  by (simp add: reads_def)

lemma reads_self: "reads f g n c \<Longrightarrow> f g = c (drop n g)"
  by (simp add: reads_def same_draws_refl)

lemma reads_0: "(\<And>t. f t = c t) \<Longrightarrow> reads f g 0 c"
  by (simp add: reads_def)

lemma reads_seq:
  assumes f: "reads f g n k" and k: "reads k (drop n g) m c"
  shows "reads f g (n + m) c"
proof (rule readsI)
  fix g2
  assume s: "same_draws (n + m) g g2"
  from readsD [OF f same_draws_add(1) [OF s]] have "f g2 = k (drop n g2)" .
  also from readsD [OF k same_draws_add(2) [OF s]] have "k (drop n g2) = c (drop m (drop n g2))" .
  finally show "f g2 = c (drop (n + m) g2)" by (simp add: add.commute)
qed

lemma reads_bind:
  assumes f: "reads f g n (Pair a)"
    and F: "\<And>t. F t = (case f t of (x, t') \<Rightarrow> K x t')"
  shows "reads F g n (K a)"
proof (rule readsI)
  fix g2
  assume "same_draws n g g2"
  from readsD [OF f this] show "F g2 = K a (drop n g2)" by (simp add: F)
qed

lemma reads_fst: "reads F g n (Pair a) \<Longrightarrow> reads F g n (Pair (fst (F g)))"
  using reads_self [of F g n "Pair a"] by simp

lemma with_tape_simps:
  "with_tape (Inl (e, h, g)) t = Inl (e, h, t)"
  "with_tape (Inr (x, h, g)) t = Inr (x, h, t)"
  by (simp_all add: with_tape_def)

lemma with_tape4_simps:
  "with_tape4 (Inl (e, h, g)) t = Inl (e, h, t)"
  "with_tape4 (Inr (x, y, h, g)) t = Inr (x, y, h, t)"
  by (simp_all add: with_tape4_def)

lemma with_tape_idem: "with_tape (with_tape r t) = with_tape r"
  by (rule ext) (simp add: with_tape_def split: sum.splits prod.splits)

lemma with_tape4_idem: "with_tape4 (with_tape4 r t) = with_tape4 r"
  by (rule ext) (simp add: with_tape4_def split: sum.splits prod.splits)

lemma reads_with_tape: "reads F g n (with_tape r) \<Longrightarrow> reads F g n (with_tape (F g))"
  using reads_self [of F g n "with_tape r"] by (simp add: with_tape_idem)

lemma reads_with_tape4: "reads F g n (with_tape4 r) \<Longrightarrow> reads F g n (with_tape4 (F g))"
  using reads_self [of F g n "with_tape4 r"] by (simp add: with_tape4_idem)

lemma draw_reads: "reads draw g 1 (Pair (outcome g 0))"
  by (rule readsI) (simp add: draw_outcome same_draws_iff)

lemma random_choice01_reads: "reads random_choice01 g 1 (Pair (fst (random_choice01 g)))"
  by (rule readsI) (simp add: random_choice01_def draw_outcome same_draws_iff)

lemma random_random_reads: "reads random_random g 1 (Pair (fst (random_random g)))"
  by (rule readsI) (simp add: random_random_def draw_outcome same_draws_iff)

lemma random_bits_reads: "reads (random_bits k) g k (Pair (fst (random_bits k g)))"
proof (induction k arbitrary: g)
  case 0
  show ?case by (rule readsI) simp
next
  case (Suc k)
  let ?b = "fst (random_choice01 g)"
  let ?K = "\<lambda>b t. case random_bits k t of (bs, g2) \<Rightarrow> (b # bs, g2)"
  have 1: "reads (random_bits (Suc k)) g 1 (?K ?b)"
    by (rule reads_bind [OF random_choice01_reads]) simp
  have 2: "reads (?K ?b) (drop 1 g) k (Pair (?b # fst (random_bits k (drop 1 g))))"
    by (rule reads_bind [OF Suc]) simp
  from reads_seq [OF 1 2] have "reads (random_bits (Suc k)) g (Suc k) (Pair (?b # fst (random_bits k (drop 1 g))))"
    by simp
  then show ?case by (rule reads_fst)
qed

lemma pick_distinct_reads: "reads (pick_distinct xs k) g k (Pair (fst (pick_distinct xs k g)))"
proof (induction k arbitrary: xs g)
  case 0
  show ?case by (rule readsI) simp
next
  case (Suc k)
  define i where "i = nat (outcome g 0 mod int (length xs))"
  let ?rest = "take i xs @ drop (Suc i) xs"
  let ?K = "\<lambda>d t. let i = nat (d mod int (length xs)) in
      case pick_distinct (take i xs @ drop (Suc i) xs) k t of (ys, g2) \<Rightarrow> (xs ! i # ys, g2)"
  have 1: "reads (pick_distinct xs (Suc k)) g 1 (?K (outcome g 0))"
    by (rule reads_bind [OF draw_reads]) simp
  have 2: "reads (?K (outcome g 0)) (drop 1 g) k (Pair (xs ! i # fst (pick_distinct ?rest k (drop 1 g))))"
    by (rule reads_bind [OF Suc [of ?rest "drop 1 g"]]) (simp add: Let_def i_def)
  from reads_seq [OF 1 2]
  have "reads (pick_distinct xs (Suc k)) g (Suc k) (Pair (xs ! i # fst (pick_distinct ?rest k (drop 1 g))))"
    by simp
  then show ?case by (rule reads_fst)
qed

lemma list_of_set_reads:
  "reads (list_of_set p) g (length p) (Pair (fst (list_of_set p g)))"
  using pick_distinct_reads [of p "length p" g]
  by (simp add: reads_def list_of_set_def)

lemma mutate_individual_reads:
  "reads (mutate_individual ind js mr h) g (length js) (Pair (fst (mutate_individual ind js mr h g)))"
proof (induction js arbitrary: h g)
  case Nil
  show ?case by (rule readsI) simp
next
  case (Cons j js)
  let ?u = "fst (random_random g)"
  let ?h = "if ?u < mr then flip_in_place ind j h else h"
  let ?K = "\<lambda>u t. mutate_individual ind js mr (if u < mr then flip_in_place ind j h else h) t"
  have 1: "reads (mutate_individual ind (j # js) mr h) g 1 (?K ?u)"
    by (rule reads_bind [OF random_random_reads]) simp
  have len: "length (j # js) = 1 + length js" by simp
  show ?case unfolding len
    by (rule reads_fst [OF reads_seq [OF 1 Cons [of ?h "drop 1 g"]]])
qed

lemma mutate_reads:
  "\<exists>n. reads (mutate inds mr h) g n (Pair (fst (mutate inds mr h g)))"
proof (induction inds arbitrary: h g)
  case Nil
  have "reads (mutate [] mr h) g 0 (Pair (fst (mutate [] mr h g)))" by (rule readsI) simp
  then show ?case ..
next
  case (Cons ind inds)
  let ?js = "[0..<length (bits (h ! ind))]"
  let ?h1 = "fst (mutate_individual ind ?js mr h g)"
  have 1: "reads (mutate (ind # inds) mr h) g (length ?js) (mutate inds mr ?h1)"
    by (rule reads_bind [OF mutate_individual_reads]) simp
  from Cons [of ?h1 "drop (length ?js) g"] obtain n
    where 2: "reads (mutate inds mr ?h1) (drop (length ?js) g) n
                (Pair (fst (mutate inds mr ?h1 (drop (length ?js) g))))" ..
  from reads_fst [OF reads_seq [OF 1 2]] show ?case ..
qed


lemma generate_loop1_reads:
  "\<exists>n p' h'. reads (generate_loop1 population max_attempts count its mw h) g n (\<lambda>t. (p', h', t))"
proof (induction population max_attempts count its mw h g rule: generate_loop1.induct)
  case (1 population max_attempts count its mw h g)
  show ?case
  proof (cases "int (length population) < count \<and> max_attempts > 0")
    case False
    then have "\<And>t. generate_loop1 population max_attempts count its mw h t = (population, h, t)"
      by (subst generate_loop1.simps) auto
    then have "reads (generate_loop1 population max_attempts count its mw h) g 0 (\<lambda>t. (population, h, t))"
      by (rule reads_0)
    then show ?thesis by blast
  next
    case True
    let ?k = "length its"
    obtain bs g1 where bs: "random_bits ?k g = (bs, g1)" by (cases "random_bits ?k g")
    define h1 where "h1 = h @ [\<lparr>bits = bs, items = its, max_weight = mw\<rparr>]"
    have new: "new_Individual bs its mw h = (length h, h1)" by (simp add: new_Individual_def h1_def)
    from random_bits_reads [of ?k g] bs have rb: "reads (random_bits ?k) g ?k (Pair bs)" by simp
    from reads_self [OF rb] bs have g1: "g1 = drop ?k g" by simp
    let ?K = "generate_loop1 (set_add population (length h)) (max_attempts - 1) count its mw h1"
    have 1: "reads (generate_loop1 population max_attempts count its mw h) g ?k ?K"
    proof (rule readsI)
      fix g2
      assume "same_draws ?k g g2"
      from readsD [OF rb this] True new
      show "generate_loop1 population max_attempts count its mw h g2 = ?K (drop ?k g2)"
        by (simp add: generate_loop1.simps [of population])
    qed
    from "1.IH" [OF True bs [symmetric] new [symmetric]]
    obtain n p' h' where "reads ?K g1 n (\<lambda>t. (p', h', t))" by blast
    from reads_seq [OF 1 this [unfolded g1]] show ?thesis by blast
  qed
qed

lemma generate_loop2_reads:
  assumes "refs_in h population"
  shows "\<exists>n p' h'. reads (generate_loop2 population count its mw h) g n (\<lambda>t. Some (p', h', t))"
  using assms
proof (induction m \<equiv> "nat (count - int (length population))" arbitrary: population h g)
  case 0
  then have "\<not> int (length population) < count" by simp
  then have "reads (generate_loop2 population count its mw h) g 0 (\<lambda>t. Some (population, h, t))"
    by (intro reads_0) (subst generate_loop2.simps, simp)
  then show ?case by blast
next
  case (Suc m)
  then have lt: "int (length population) < count" by simp
  let ?k = "length its"
  obtain bs g1 where bs: "random_bits ?k g = (bs, g1)" by (cases "random_bits ?k g")
  define h1 where "h1 = h @ [\<lparr>bits = bs, items = its, max_weight = mw\<rparr>]"
  have new: "new_Individual bs its mw h = (length h, h1)" by (simp add: new_Individual_def h1_def)
  have add: "set_add population (length h) = population @ [length h]"
    using Suc.prems by (rule set_add_fresh)
  have r1: "refs_in h1 (population @ [length h])"
    using Suc.prems by (auto simp: refs_in_def h1_def list_all_iff)
  have m: "m = nat (count - int (length (population @ [length h])))"
    using Suc.hyps(2) by simp
  from random_bits_reads [of ?k g] bs have rb: "reads (random_bits ?k) g ?k (Pair bs)" by simp
  let ?K = "generate_loop2 (population @ [length h]) count its mw h1"
  have 1: "reads (generate_loop2 population count its mw h) g ?k ?K"
  proof (rule readsI)
    fix g2
    assume "same_draws ?k g g2"
    from readsD [OF rb this] lt new add
    show "generate_loop2 population count its mw h g2 = ?K (drop ?k g2)"
      by (subst generate_loop2.simps) simp
  qed
  from Suc.hyps(1) [OF m r1, of "drop ?k g"]
  obtain n p' h' where "reads ?K (drop ?k g) n (\<lambda>t. Some (p', h', t))" by blast
  from reads_seq [OF 1 this] show ?case by blast
qed

lemma generate_initial_population_reads:
  assumes "heap_ok its mw h"
  shows "\<exists>n p h'. reads (generate_initial_population count its mw h) g n (\<lambda>t. Some (p, h', t))"
proof -
  let ?L1 = "generate_loop1 [] (count * 10) count its mw h"
  from generate_loop1_reads [of "[]" "count * 10" count its mw h g]
  obtain n1 p1 h1 where r1: "reads ?L1 g n1 (\<lambda>t. (p1, h1, t))" by blast
  from reads_self [OF r1] have l1: "?L1 g = (p1, h1, drop n1 g)" .
  have ok1: "refs_in h1 p1"
  proof (cases "0 \<le> count * 10")
    case True
    from generate_loop1_ok [OF l1 assms _ True] show ?thesis by (simp add: refs_in_def)
  next
    case False
    then have "?L1 g = ([], h, g)"
      by (simp add: generate_loop1.simps [of "[]"])
    with l1 show ?thesis by (simp add: refs_in_def)
  qed
  let ?L2 = "generate_loop2 p1 count its mw h1"
  from generate_loop2_reads [OF ok1, of count its mw "drop n1 g"]
  obtain n2 p2 h2 where r2: "reads ?L2 (drop n1 g) n2 (\<lambda>t. Some (p2, h2, t))" by blast
  let ?xs = "fst (list_of_set p2 (drop n2 (drop n1 g)))"
  note r3 = list_of_set_reads [of p2 "drop n2 (drop n1 g)"]
  let ?K2 = "\<lambda>t. case list_of_set p2 t of (xs, g3) \<Rightarrow> Some (xs, h2, g3)"
  let ?K1 = "\<lambda>t. case ?L2 t of None \<Rightarrow> None
              | Some (population', h2, g2) \<Rightarrow> (case list_of_set population' g2 of (xs, g3) \<Rightarrow> Some (xs, h2, g3))"
  have 1: "reads (generate_initial_population count its mw h) g n1 ?K1"
  proof (rule readsI)
    fix g2
    assume "same_draws n1 g g2"
    from readsD [OF r1 this]
    show "generate_initial_population count its mw h g2 = ?K1 (drop n1 g2)"
      by (simp add: generate_initial_population_def)
  qed
  have 2: "reads ?K1 (drop n1 g) n2 ?K2"
  proof (rule readsI)
    fix g2
    assume "same_draws n2 (drop n1 g) g2"
    from readsD [OF r2 this] show "?K1 g2 = ?K2 (drop n2 g2)" by simp
  qed
  have 3: "reads ?K2 (drop n2 (drop n1 g)) (length p2) (\<lambda>t. Some (?xs, h2, t))"
  proof (rule readsI)
    fix g2
    assume "same_draws (length p2) (drop n2 (drop n1 g)) g2"
    from readsD [OF r3 this] show "?K2 g2 = Some (?xs, h2, drop (length p2) g2)" by simp
  qed
  from reads_seq [OF 1 reads_seq [OF 2 3]] show ?thesis by blast
qed

lemma tournament_reads:
  assumes "4 \<le> length population"
  shows "\<exists>w. reads (tournament population h) g 4 (\<lambda>t. Inr (w, t))"
proof -
  let ?tr = "fst (pick_distinct population 4 g)"
  have "length ?tr = 4" by (rule length_pick_distinct)
  then obtain x xs where tr: "?tr = x # xs" by (cases ?tr) auto
  let ?w = "max_from (\<lambda>x. fitness (h ! x)) x xs"
  have "reads (tournament population h) g 4 (\<lambda>t. Inr (?w, t))"
  proof (rule readsI)
    fix g2
    assume "same_draws 4 g g2"
    from readsD [OF pick_distinct_reads [of population 4 g] this] tr assms
    show "tournament population h g2 = Inr (?w, drop 4 g2)"
      by (simp add: tournament_def random_sample_def py_max_def)
  qed
  then show ?thesis ..
qed

lemma selection_reads:
  "\<exists>n ps. reads (selection population h) g n (\<lambda>t. Inr (ps, t))"
proof (cases "length population < 4")
  case True
  let ?m = "min 2 (length population)"
  have "reads (selection population h) g ?m (\<lambda>t. Inr (fst (pick_distinct population ?m g), t))"
  proof (rule readsI)
    fix g2
    assume "same_draws ?m g g2"
    from readsD [OF pick_distinct_reads [of population ?m g] this] True
    show "selection population h g2 = Inr (fst (pick_distinct population ?m g), drop ?m g2)"
      by (simp add: selection_def random_sample_def)
  qed
  then show ?thesis by blast
next
  case False
  then have 4: "4 \<le> length population" by simp
  from tournament_reads [OF 4, of h g] obtain w1
    where t1: "reads (tournament population h) g 4 (\<lambda>t. Inr (w1, t))" ..
  from tournament_reads [OF 4, of h "drop 4 g"] obtain w2
    where t2: "reads (tournament population h) (drop 4 g) 4 (\<lambda>t. Inr (w2, t))" ..
  let ?K = "\<lambda>t. case tournament population h t of
                  Inl e \<Rightarrow> Inl e
                | Inr (winner2, g2) \<Rightarrow> Inr ([w1, winner2], g2)"
  have 1: "reads (selection population h) g 4 ?K"
  proof (rule readsI)
    fix g2
    assume "same_draws 4 g g2"
    from readsD [OF t1 this] False
    show "selection population h g2 = ?K (drop 4 g2)"
      by (simp add: selection_def)
  qed
  have 2: "reads ?K (drop 4 g) 4 (\<lambda>t. Inr ([w1, w2], t))"
  proof (rule readsI)
    fix g2
    assume "same_draws 4 (drop 4 g) g2"
    from readsD [OF t2 this]
    show "?K g2 = Inr ([w1, w2], drop 4 g2)" by simp
  qed
  from reads_seq [OF 1 2] show ?thesis by blast
qed

lemma crossover_reads:
  "\<exists>n. reads (crossover parents its mw cr h) g n (with_tape (crossover parents its mw cr h g))"
proof (cases "length parents < 2")
  case True
  have "reads (crossover parents its mw cr h) g 0 (with_tape (Inr (parents, h, [])))"
  proof (rule readsI)
    fix t
    from True show "crossover parents its mw cr h t = with_tape (Inr (parents, h, [])) (drop 0 t)"
      by (simp add: crossover_def with_tape_simps)
  qed
  from reads_with_tape [OF this] show ?thesis ..
next
  case False
  define u where "u = fst (random_random g)"
  have rr: "random_random t = (u, drop 1 t)" if "same_draws 1 g t" for t
    using readsD [OF random_random_reads that] by (simp add: u_def)
  show ?thesis
  proof (cases "u > cr")
    case True
    have "reads (crossover parents its mw cr h) g 1 (with_tape (Inr (parents, h, [])))"
    proof (rule readsI)
      fix t
      assume "same_draws 1 g t"
      from rr [OF this] True False
      show "crossover parents its mw cr h t = with_tape (Inr (parents, h, [])) (drop 1 t)"
        by (simp add: crossover_def with_tape_simps)
    qed
    from reads_with_tape [OF this] show ?thesis ..
  next
    case no: False
    show ?thesis
    proof (cases "int (length its) - 1 < 1")
      case True
      then have ri: "random_randint 1 (int (length its) - 1) t = Inl ValueError" for t
        by (simp add: random_randint_def)
      have "reads (crossover parents its mw cr h) g 1 (with_tape (Inl (ValueError, h, [])))"
      proof (rule readsI)
        fix t
        assume "same_draws 1 g t"
        from rr [OF this] no False
        show "crossover parents its mw cr h t = with_tape (Inl (ValueError, h, [])) (drop 1 t)"
          by (simp add: crossover_def with_tape_simps ri)
      qed
      from reads_with_tape [OF this] show ?thesis ..
    next
      case many: False
      define cp where "cp = 1 + outcome (drop 1 g) 0 mod (int (length its) - 1)"
      define p where "p = nat cp"
      define h2 where "h2 = h @ [\<lparr>bits = take p (bits (h ! (parents ! 0))) @ drop p (bits (h ! (parents ! 1))),
                                 items = its, max_weight = mw\<rparr>,
                               \<lparr>bits = take p (bits (h ! (parents ! 1))) @ drop p (bits (h ! (parents ! 0))),
                                 items = its, max_weight = mw\<rparr>]"
      have "reads (crossover parents its mw cr h) g (1 + 1) (with_tape (Inr ([length h, Suc (length h)], h2, [])))"
      proof (rule readsI)
        fix t
        assume s: "same_draws (1 + 1) g t"
        note s1 = same_draws_add(1) [OF s] and s2 = same_draws_add(2) [OF s]
        from s2 have "outcome (drop 1 t) 0 = outcome (drop 1 g) 0"
          by (simp add: same_draws_iff)
        with many have ri: "random_randint 1 (int (length its) - 1) (drop 1 t) = Inr (cp, drop 1 (drop 1 t))"
          by (simp add: random_randint_def draw_outcome cp_def)
        have "crossover parents its mw cr h t = Inr ([length h, Suc (length h)], h2, drop 1 (drop 1 t))"
          using False no rr [OF s1] ri
          by (simp add: crossover_def Let_def new_Individual_def h2_def p_def)
        then show "crossover parents its mw cr h t
            = with_tape (Inr ([length h, Suc (length h)], h2, [])) (drop (1 + 1) t)"
          by (simp add: with_tape_simps)
      qed
      from reads_with_tape [OF this] show ?thesis ..
    qed
  qed
qed

lemma next_generation_loop_reads:
  "\<exists>n. reads (next_generation_loop next_gen population its mw cr mr h) g n
          (with_tape (next_generation_loop next_gen population its mw cr mr h g))"
proof (induction next_gen population its mw cr mr h g rule: next_generation_loop.induct)
  case (1 next_gen population its mw cr mr h g)
  let ?F = "next_generation_loop next_gen population its mw cr mr h"
  show ?case
  proof (cases "length next_gen < length population")
    case False
    then have "reads ?F g 0 (with_tape (?F g))"
      by (intro reads_0) (simp add: next_generation_loop.simps [of next_gen] with_tape_simps)
    then show ?thesis ..
  next
    case True
    from selection_reads [of population h g] obtain n1 ps
      where s: "reads (selection population h) g n1 (\<lambda>t. Inr (ps, t))" by blast
    from reads_self [OF s] have sel: "selection population h g = Inr (ps, drop n1 g)" .
    let ?g1 = "drop n1 g"
    let ?K1 = "\<lambda>t. case crossover ps its mw cr h t of
               Inl e \<Rightarrow> Inl e
             | Inr (children, h1, g2) \<Rightarrow>
                 (case mutate children mr h1 g2 of (h2, g3) \<Rightarrow>
                    next_generation_loop (next_gen @ children) population its mw cr mr h2 g3)"
    have 1: "reads ?F g n1 ?K1"
    proof (rule readsI)
      fix g2
      assume "same_draws n1 g g2"
      from readsD [OF s this] True
      show "?F g2 = ?K1 (drop n1 g2)"
        by (simp add: next_generation_loop.simps [of next_gen])
    qed
    from crossover_reads [of ps its mw cr h ?g1] obtain n2
      where c: "reads (crossover ps its mw cr h) ?g1 n2 (with_tape (crossover ps its mw cr h ?g1))" ..
    have "\<exists>n. reads ?K1 ?g1 n (with_tape (?K1 ?g1))"
    proof (cases "crossover ps its mw cr h ?g1")
      case (Inl e)
      obtain er h' g' where e: "e = (er, h', g')" by (cases e)
      have "reads ?K1 ?g1 n2 (with_tape (Inl (er, h', g')))"
      proof (rule readsI)
        fix g2
        assume "same_draws n2 ?g1 g2"
        from readsD [OF c this] Inl e
        show "?K1 g2 = with_tape (Inl (er, h', g')) (drop n2 g2)"
          by (simp add: with_tape_simps)
      qed
      from reads_with_tape [OF this] show ?thesis ..
    next
      case (Inr r)
      obtain children h1 g2' where r: "r = (children, h1, g2')" by (cases r)
      let ?g2 = "drop n2 ?g1"
      from reads_self [OF c] Inr r
      have cro: "crossover ps its mw cr h ?g1 = Inr (children, h1, ?g2)" by (simp add: with_tape_simps)
      let ?K2 = "\<lambda>t. case mutate children mr h1 t of (h2, g3) \<Rightarrow>
                    next_generation_loop (next_gen @ children) population its mw cr mr h2 g3"
      have 2: "reads ?K1 ?g1 n2 ?K2"
      proof (rule readsI)
        fix t
        assume "same_draws n2 ?g1 t"
        from readsD [OF c this] cro
        show "?K1 t = ?K2 (drop n2 t)"
          by (simp add: with_tape_simps)
      qed
      define h2 where "h2 = fst (mutate children mr h1 ?g2)"
      from mutate_reads [of children mr h1 ?g2] obtain n3
        where m: "reads (mutate children mr h1) ?g2 n3 (Pair h2)" unfolding h2_def ..
      let ?g3 = "drop n3 ?g2"
      from reads_self [OF m] have mut: "mutate children mr h1 ?g2 = (h2, ?g3)" .
      let ?K3 = "next_generation_loop (next_gen @ children) population its mw cr mr h2"
      have 3: "reads ?K2 ?g2 n3 ?K3"
      proof (rule readsI)
        fix t
        assume "same_draws n3 ?g2 t"
        from readsD [OF m this]
        show "?K2 t = ?K3 (drop n3 t)" by simp
      qed
      from "1.IH" [OF True sel refl cro refl refl mut [symmetric]]
      obtain n4 where 4: "reads ?K3 ?g3 n4 (with_tape (?K3 ?g3))" ..
      from reads_with_tape [OF reads_seq [OF 2 reads_seq [OF 3 4]]] show ?thesis ..
    qed
    then obtain n where "reads ?K1 ?g1 n (with_tape (?K1 ?g1))" ..
    from reads_with_tape [OF reads_seq [OF 1 this]] show ?thesis ..
  qed
qed

lemma next_generation_reads:
  "\<exists>n. reads (next_generation population its mw cr mr h) g n
          (with_tape (next_generation population its mw cr mr h g))"
proof -
  let ?ng = "take (max 1 (length population div 10)) (sort_key (\<lambda>x. - fitness (h ! x)) population)"
  let ?L = "next_generation_loop ?ng population its mw cr mr h"
  from next_generation_loop_reads [of ?ng population its mw cr mr h g]
  obtain n where l: "reads ?L g n (with_tape (?L g))" ..
  have "reads (next_generation population its mw cr mr h) g n
          (with_tape (next_generation population its mw cr mr h g))"
  proof (rule readsI)
    fix t
    assume "same_draws n g t"
    from readsD [OF l this]
    show "next_generation population its mw cr mr h t
        = with_tape (next_generation population its mw cr mr h g) (drop n t)"
      by (cases "?L g") (auto simp: next_generation_def Let_def with_tape_def)
  qed
  then show ?thesis ..
qed

lemma generation_step_reads:
  "\<exists>n. reads (generation_step population best its mw cr mr h) g n
          (with_tape4 (generation_step population best its mw cr mr h g))"
proof -
  let ?N = "next_generation population its mw cr mr h"
  from next_generation_reads [of population its mw cr mr h g]
  obtain n where l: "reads ?N g n (with_tape (?N g))" ..
  have "reads (generation_step population best its mw cr mr h) g n
          (with_tape4 (generation_step population best its mw cr mr h g))"
  proof (rule readsI)
    fix t
    assume "same_draws n g t"
    from readsD [OF l this]
    show "generation_step population best its mw cr mr h t
        = with_tape4 (generation_step population best its mw cr mr h g) (drop n t)"
      by (cases "?N g")
        (auto simp: generation_step_def with_tape_def with_tape4_def split: sum.splits option.splits)
  qed
  then show ?thesis ..
qed

lemma evolve_reads:
  "\<exists>n. reads (evolve k population best its mw cr mr h) g n
          (with_tape4 (evolve k population best its mw cr mr h g))"
proof (induction k arbitrary: population best h g)
  case 0
  have "reads (evolve 0 population best its mw cr mr h) g 0
          (with_tape4 (evolve 0 population best its mw cr mr h g))"
    by (rule reads_0) (simp add: with_tape4_simps)
  then show ?case ..
next
  case (Suc k)
  let ?S = "generation_step population best its mw cr mr h"
  let ?F = "evolve (Suc k) population best its mw cr mr h"
  from generation_step_reads [of population best its mw cr mr h g]
  obtain n where s: "reads ?S g n (with_tape4 (?S g))" ..
  show ?case
  proof (cases "?S g")
    case (Inl e)
    obtain er h' g' where e: "e = (er, h', g')" by (cases e)
    have "reads ?F g n (with_tape4 (Inl (er, h', g')))"
    proof (rule readsI)
      fix t
      assume "same_draws n g t"
      from readsD [OF s this] Inl e
      show "?F t = with_tape4 (Inl (er, h', g')) (drop n t)"
        by (simp add: with_tape4_simps)
    qed
    from reads_with_tape4 [OF this] show ?thesis ..
  next
    case (Inr r)
    obtain p' b' h' g' where r: "r = (p', b', h', g')" by (cases r)
    let ?K = "evolve k p' b' its mw cr mr h'"
    have 1: "reads ?F g n ?K"
    proof (rule readsI)
      fix t
      assume "same_draws n g t"
      from readsD [OF s this] Inr r
      show "?F t = ?K (drop n t)"
        by (simp add: with_tape4_simps)
    qed
    from Suc [of p' b' h' "drop n g"] obtain m
      where 2: "reads ?K (drop n g) m (with_tape4 (?K (drop n g)))" ..
    from reads_with_tape4 [OF reads_seq [OF 1 2]] show ?thesis ..
  qed
qed

lemma evolution_reads:
  assumes "heap_ok its mw h"
  shows "\<exists>n r. reads (evolution population_size its mw generations cr mr h) g n
            (\<lambda>t. Some (with_tape4 r t))"
proof -
  let ?G = "generate_initial_population population_size its mw h"
  from generate_initial_population_reads [OF assms, of population_size g]
  obtain n p h1 where i: "reads ?G g n (\<lambda>t. Some (p, h1, t))" by blast
  let ?K = "evolve (nat generations) p (py_max_default (\<lambda>x. fitness (h1 ! x)) p) its mw cr mr h1"
  from evolve_reads [of "nat generations" p _ its mw cr mr h1 "drop n g"]
  obtain m where e: "reads ?K (drop n g) m (with_tape4 (?K (drop n g)))" ..
  have 1: "reads (evolution population_size its mw generations cr mr h) g n (\<lambda>t. Some (?K t))"
  proof (rule readsI)
    fix t
    assume "same_draws n g t"
    from readsD [OF i this]
    show "evolution population_size its mw generations cr mr h t = Some (?K (drop n t))"
      by (simp add: evolution_def Let_def)
  qed
  have 2: "reads (\<lambda>t. Some (?K t)) (drop n g) m (\<lambda>t. Some (with_tape4 (?K (drop n g)) t))"
  proof (rule readsI)
    fix t
    assume "same_draws m (drop n g) t"
    from readsD [OF e this]
    show "Some (?K t) = Some (with_tape4 (?K (drop n g)) (drop m t))" by simp
  qed
  from reads_seq [OF 1 2] show ?thesis by blast
qed

lemma solve_knapsack_reads:
  "\<exists>n response status h. reads (solve_knapsack data) g n (\<lambda>t. Some (response, status, h, t))"
proof (cases "no_data data \<or> get (req_items data) [] = []")
  case True
  then have "reads (solve_knapsack data) g 0
      (\<lambda>t. Some (Error (if no_data data then Invalid_input_format else No_items_provided), 400, [], t))"
    by (intro reads_0) (auto simp: solve_knapsack_def Let_def)
  then show ?thesis by blast
next
  case False
  let ?its = "get (req_items data) []"
  let ?mw = "get (req_max_weight data) 15"
  let ?E = "evolution (get (req_population_size data) 6) ?its ?mw (get (req_generations data) 100)
              (get (req_crossover_rate data) (53 / 100)) (get (req_mutation_rate data) (13 / 1000)) []"
  have "heap_ok ?its ?mw []" by (simp add: heap_ok_def)
  from evolution_reads [OF this, of _ _ _ _ g]
  obtain n r where e: "reads ?E g n (\<lambda>t. Some (with_tape4 r t))" by blast
  show ?thesis
  proof (cases r)
    case (Inl x)
    obtain er h' g' where x: "x = (er, h', g')" by (cases x)
    have "reads (solve_knapsack data) g n (\<lambda>t. Some (Error (An_error_occurred er), 500, h', t))"
    proof (rule readsI)
      fix t
      assume "same_draws n g t"
      from readsD [OF e this] False Inl x
      show "solve_knapsack data t = Some (Error (An_error_occurred er), 500, h', drop n t)"
        by (simp add: solve_knapsack_def Let_def with_tape4_simps)
    qed
    then show ?thesis by blast
  next
    case (Inr y)
    obtain p b h' g' where y: "y = (p, b, h', g')" by (cases y)
    have "reads (solve_knapsack data) g n (\<lambda>t. Some (project_result b ?mw h', 200, h', t))"
    proof (rule readsI)
      fix t
      assume "same_draws n g t"
      from readsD [OF e this] False Inr y
      show "solve_knapsack data t = Some (project_result b ?mw h', 200, h', drop n t)"
        by (simp add: solve_knapsack_def Let_def with_tape4_simps)
    qed
    then show ?thesis by blast
  qed
qed

section \<open>Randomness\<close>

text \<open>
  C10 as stated fails: the route takes the request and nothing else, and two calls with
  the same request return different results when the process-wide generator yields
  different outcomes.
\<close>

theorem same_request_different_results:
  "solve_knapsack \<lparr>req_items = Some [item_A, item_B], req_max_weight = Some 5,
       req_population_size = Some 2, req_generations = Some 0,
       req_crossover_rate = None, req_mutation_rate = None\<rparr> [1, 1, 1, 1]
     = Some (Result [item_A, item_B] 7 5, 200,
         [\<lparr>bits = [1, 1], items = [item_A, item_B], max_weight = 5\<rparr>,
          \<lparr>bits = [1, 1], items = [item_A, item_B], max_weight = 5\<rparr>], [])
   \<and> solve_knapsack \<lparr>req_items = Some [item_A, item_B], req_max_weight = Some 5,
       req_population_size = Some 2, req_generations = Some 0,
       req_crossover_rate = None, req_mutation_rate = None\<rparr> []
     = Some (Result [] 0 0, 200,
         [\<lparr>bits = [0, 0], items = [item_A, item_B], max_weight = 5\<rparr>,
          \<lparr>bits = [0, 0], items = [item_A, item_B], max_weight = 5\<rparr>], [])"
  by code_simp

text \<open>
  C10 as the code has it. The solver takes no seed and no source of randomness: what a call
  returns is a function of the request and of the outcomes it meets, which are the draws
  of the process-wide generator and the order in which \<open>list(population)\<close> walks the set
  (that order follows the string hash of the process). A call reads finitely many
  outcomes \<open>n\<close> and returns; every call with the same request that meets the same first \<open>n\<close>
  outcomes returns the same response, the same status and the same heap, and leaves what
  follows these outcomes untouched.
\<close>

theorem solve_determined_by_request_and_draws:
  "\<exists>n response status h.
     \<forall>g2. same_draws n g g2 \<longrightarrow> solve_knapsack data g2 = Some (response, status, h, drop n g2)"
  using solve_knapsack_reads [of data g] unfolding reads_def .

theorem solve_determined_by_request_and_draws_witness:
  "same_draws 6 [1, 1, 1, 1, 0, 1, 9] [1, 1, 1, 1, 0, 1, 5, 6]
   \<and> solve_knapsack \<lparr>req_items = Some [item_A, item_B], req_max_weight = Some 5,
       req_population_size = Some 2, req_generations = Some 0,
       req_crossover_rate = None, req_mutation_rate = None\<rparr> [1, 1, 1, 1, 0, 1, 9]
     = Some (Result [item_A, item_B] 7 5, 200,
         [\<lparr>bits = [1, 1], items = [item_A, item_B], max_weight = 5\<rparr>,
          \<lparr>bits = [1, 1], items = [item_A, item_B], max_weight = 5\<rparr>], [9])
   \<and> solve_knapsack \<lparr>req_items = Some [item_A, item_B], req_max_weight = Some 5,
       req_population_size = Some 2, req_generations = Some 0,
       req_crossover_rate = None, req_mutation_rate = None\<rparr> [1, 1, 1, 1, 0, 1, 5, 6]
     = Some (Result [item_A, item_B] 7 5, 200,
         [\<lparr>bits = [1, 1], items = [item_A, item_B], max_weight = 5\<rparr>,
          \<lparr>bits = [1, 1], items = [item_A, item_B], max_weight = 5\<rparr>], [5, 6])"
proof -
  let ?data = "\<lparr>req_items = Some [item_A, item_B], req_max_weight = Some 5,
       req_population_size = Some 2, req_generations = Some 0,
       req_crossover_rate = None, req_mutation_rate = None\<rparr>"
  let ?g = "[1, 1, 1, 1, 0, 1, 9] :: rng"
  let ?g2 = "[1, 1, 1, 1, 0, 1, 5, 6] :: rng"
  let ?h = "[\<lparr>bits = [1, 1], items = [item_A, item_B], max_weight = 5\<rparr>,
          \<lparr>bits = [1, 1], items = [item_A, item_B], max_weight = 5\<rparr>]"
  have run: "solve_knapsack ?data ?g = Some (Result [item_A, item_B] 7 5, 200, ?h, [9])"
    by code_simp
  have same: "same_draws 6 ?g ?g2" by code_simp
  from solve_determined_by_request_and_draws [of ?g ?data]
  obtain n response status h where
    d: "\<And>g2. same_draws n ?g g2 \<Longrightarrow> solve_knapsack ?data g2 = Some (response, status, h, drop n g2)"
    by blast
  from d [OF same_draws_refl] run
  have r: "response = Result [item_A, item_B] 7 5" "status = 200" "h = ?h" and dr: "drop n ?g = [9]"
    by simp_all
  from dr have "length (drop n ?g) = 1" by simp
  then have n: "n = 6" by simp
  from d [of ?g2] same have "solve_knapsack ?data ?g2 = Some (response, status, h, drop 6 ?g2)"
    unfolding n by simp
  with r have "solve_knapsack ?data ?g2 = Some (Result [item_A, item_B] 7 5, 200, ?h, [5, 6])"
    by simp
  with run same show ?thesis by simp
qed

section \<open>Mutation reaches the elite and the best-so-far candidate\<close>

text \<open>
  C3. The best-so-far fitness does not stay monotone. Two candidates \<open>[1, 1]\<close> over the
  catalog A, B with cap 5 both score 7. In the first generation \<open>selection\<close> samples both,
  the recombination draw 0.75 exceeds 0.53, so \<open>crossover\<close> hands back the parents
  themselves, and \<open>mutate\<close> flips the first bit of the first one (draw 0): the object
  that \<open>best_solution\<close> refers to now reads \<open>[0, 1]\<close> and scores 4. After no generation
  the best-so-far fitness is 7, after one generation of the same run it is 4.
\<close>

theorem best_so_far_fitness_decreases:
  "best_so_far_fitness (evolution 2 [item_A, item_B] 5 0 (53 / 100) (13 / 1000) []
       [1, 1, 1, 1, 0, 0, 0, 0, 6755399441055744, 0,
        6755399441055744, 6755399441055744, 6755399441055744]) = Some 7
   \<and> best_so_far_fitness (evolution 2 [item_A, item_B] 5 1 (53 / 100) (13 / 1000) []
       [1, 1, 1, 1, 0, 0, 0, 0, 6755399441055744, 0,
        6755399441055744, 6755399441055744, 6755399441055744]) = Some 4"
  by code_simp

text \<open>
  C4. The elite is not carried over unchanged. In the same generation transition the
  elite slice is the object at address 0, with bits \<open>[1, 1]\<close>; the next population is
  that object twice, and by then it reads \<open>[0, 1]\<close>: no member of the next population
  has the elite's bit vector.
\<close>

theorem elite_mutated_in_place:
  "take 1 (sort_key (\<lambda>x. - fitness ([\<lparr>bits = [1, 1], items = [item_A, item_B], max_weight = 5\<rparr>,
        \<lparr>bits = [1, 1], items = [item_A, item_B], max_weight = 5\<rparr>] ! x)) [0, 1]) = [0]
   \<and> next_generation [0, 1] [item_A, item_B] 5 (53 / 100) (13 / 1000)
       [\<lparr>bits = [1, 1], items = [item_A, item_B], max_weight = 5\<rparr>,
        \<lparr>bits = [1, 1], items = [item_A, item_B], max_weight = 5\<rparr>]
       [0, 0, 6755399441055744, 0, 6755399441055744, 6755399441055744, 6755399441055744]
     = Inr ([0, 0],
         [\<lparr>bits = [0, 1], items = [item_A, item_B], max_weight = 5\<rparr>,
          \<lparr>bits = [1, 1], items = [item_A, item_B], max_weight = 5\<rparr>], [])"
  by code_simp

section \<open>The initializer never rejects a duplicate\<close>

text \<open>
  C7. Value-equal bit vectors enter the population within the first \<open>count * 10\<close> draws.
  With \<open>count = 2\<close> over a one-item catalog and a generator that yields 0 twice, the
  first two draws are both \<open>[0]\<close> and both are kept: the set compares its members by
  identity, so the second \<open>add\<close> does not find the first.
\<close>

theorem initializer_keeps_equal_bit_vectors:
  "generate_initial_population 2 [item_A] 5 [] [] =
     Some ([0, 1],
       [\<lparr>bits = [0], items = [item_A], max_weight = 5\<rparr>,
        \<lparr>bits = [0], items = [item_A], max_weight = 5\<rparr>], [])"
  by code_simp

end
